theory Spec2Isabelle
  imports
    Complex_Main
    "HOL-Library.Char_ord"
    "HOL-Library.List_Lexorder"
    "HOL-Library.Product_Lexorder"
    "HOL-Library.Sublist"
begin

section \<open>Conventions of the embedding\<close>

text \<open>
  The runner is Python. A Python \<open>str\<close> is modelled as a \<open>string\<close> whose characters
  are the code points below 256, compared by code point as Python compares them
  (\<open>Char_ord\<close>, \<open>List_Lexorder\<close>). A finite Python \<open>float\<close> is the rational number it
  denotes (\<open>rat\<close>); NaN and the infinities are outside the model. A Python \<open>int\<close> is
  an \<open>int\<close>. \<open>Optional[T]\<close> is \<open>T option\<close>. A \<open>dict\<close> is an association list in
  insertion order with distinct keys, as \<open>dict.values()\<close> and \<open>dict.items()\<close>
  enumerate it. Every \<open>raise\<close> is a value \<open>Inl e\<close> of a sum type. The system clock
  (\<open>now_ms()\<close>, \<open>now_iso()\<close>) is a parameter of every function that reads it.
\<close>

subsection \<open>Python truthiness and string helpers\<close>

definition truthy_str :: "string option \<Rightarrow> bool" where
  "truthy_str s = (case s of None \<Rightarrow> False | Some v \<Rightarrow> v \<noteq> [])"

definition or_zero :: "int option \<Rightarrow> int" where
  "or_zero v = (case v of None \<Rightarrow> 0 | Some i \<Rightarrow> if i = 0 then 0 else i)"

definition py_isspace :: "char \<Rightarrow> bool" where
  "py_isspace c = ((of_char c :: nat) \<in> {9, 10, 11, 12, 13, 28, 29, 30, 31, 32, 133, 160})"

definition py_strip :: "string \<Rightarrow> string" where
  "py_strip s = rev (dropWhile py_isspace (rev (dropWhile py_isspace s)))"

definition py_lower_char :: "char \<Rightarrow> char" where
  "py_lower_char c =
     (let n = (of_char c :: nat)
      in if (65 \<le> n \<and> n \<le> 90) \<or> (192 \<le> n \<and> n \<le> 214) \<or> (216 \<le> n \<and> n \<le> 222)
         then char_of (n + 32) else c)"

definition py_lower :: "string \<Rightarrow> string" where
  "py_lower s = map py_lower_char s"

section \<open>OAuth profile (runner/auth/openai_oauth_pool.py)\<close>

record OAuthProfile =
  profile :: string
  access_token :: string
  refresh_token :: string
  expires_at_ms :: int
  email :: "string option"
  account_id :: "string option"
  issuer :: "string option"
  client_id :: "string option"
  remaining :: "rat option"
  reset_at_ms :: "int option"
  provider :: "string option"
  last_seen_at :: "string option"
  rate_limited_until_ms :: "int option"
  disabled :: bool
  updated_at :: "string option"

text \<open>\<open>is_usable(at_ms)\<close>; the caller passes the clock reading when \<open>at_ms\<close> is absent.\<close>

definition is_usable :: "OAuthProfile \<Rightarrow> int \<Rightarrow> bool" where
  "is_usable p at_ms =
     (if disabled p then False
      else (let until = or_zero (rate_limited_until_ms p) in until \<le> at_ms))"

definition is_expired :: "OAuthProfile \<Rightarrow> int \<Rightarrow> bool" where
  "is_expired p at_ms = (expires_at_ms p \<le> at_ms + 30000)"

definition effective_email :: "OAuthProfile \<Rightarrow> string" where
  "effective_email p = (if truthy_str (email p) then the (email p) else profile p)"

definition effective_remaining :: "OAuthProfile \<Rightarrow> rat" where
  "effective_remaining p = (case remaining p of None \<Rightarrow> 10 ^ 18 | Some r \<Rightarrow> r)"

definition effective_reset_at_ms :: "OAuthProfile \<Rightarrow> int" where
  "effective_reset_at_ms p =
     (case reset_at_ms p of
        Some r \<Rightarrow>
          if r > 0 then r
          else (case rate_limited_until_ms p of
                  Some u \<Rightarrow> if u > 0 then u else 10 ^ 18
                | None \<Rightarrow> 10 ^ 18)
      | None \<Rightarrow>
          (case rate_limited_until_ms p of
             Some u \<Rightarrow> if u > 0 then u else 10 ^ 18
           | None \<Rightarrow> 10 ^ 18))"

section \<open>OAuth pool\<close>

text \<open>
  The pool's fields \<open>provider\<close>, \<open>updated_at\<close>, \<open>issuer\<close> and \<open>client_id\<close> carry the
  prefix \<open>pool_\<close>, since the profile record has fields of the same names.
\<close>

record OAuthPool =
  version :: int
  pool_provider :: string
  pool_updated_at :: string
  selection_strategy :: string
  pinned_profile :: "string option"
  last_used_profile :: "string option"
  profiles :: "(string \<times> OAuthProfile) list"
  pool_issuer :: "string option"
  pool_client_id :: "string option"
  model :: "string option"
  codex_endpoint :: "string option"

datatype pool_error =
    ProfileNotFound string
  | PinnedProfileNotFound string
  | NoUsableAllDisabled "string list"
  | NoUsableAllRateLimited "string list" int string
  | NoUsable "string list"
  | NoUsableToRotate
  | SelectedProfileMissing string

definition list_profiles :: "OAuthPool \<Rightarrow> string list" where
  "list_profiles pool = sort (map fst (profiles pool))"

text \<open>The sort key of \<open>choose_profile\<close> and \<open>rotate_after\<close>, a Python tuple.\<close>

definition rank_key :: "OAuthProfile \<Rightarrow> rat \<times> int \<times> string" where
  "rank_key p = (effective_remaining p, effective_reset_at_ms p, effective_email p)"

definition wait_key :: "OAuthProfile \<Rightarrow> int \<times> string" where
  "wait_key p = (effective_reset_at_ms p, effective_email p)"

text \<open>\<open>(self.selection_strategy or "sticky").strip().lower()\<close>\<close>

definition strategy_of :: "OAuthPool \<Rightarrow> string" where
  "strategy_of pool =
     py_lower (py_strip (if selection_strategy pool \<noteq> [] then selection_strategy pool
                         else ''sticky''))"

text \<open>The sticky shortcut: the last used profile, when it is in the pool and usable.\<close>

definition sticky_choice :: "OAuthPool \<Rightarrow> int \<Rightarrow> string option" where
  "sticky_choice pool at_ms =
     (if strategy_of pool = ''sticky'' then
        (if truthy_str (last_used_profile pool) then
           (case map_of (profiles pool) (the (last_used_profile pool)) of
              Some p \<Rightarrow> if is_usable p at_ms then Some (profile p) else None
            | None \<Rightarrow> None)
         else None)
      else None)"

definition usable_at :: "OAuthPool \<Rightarrow> int \<Rightarrow> OAuthProfile list" where
  "usable_at pool at_ms = filter (\<lambda>p. is_usable p at_ms) (map snd (profiles pool))"

text \<open>The error raised when no profile is usable.\<close>

definition no_usable_error :: "OAuthPool \<Rightarrow> int \<Rightarrow> pool_error" where
  "no_usable_error pool at_ms =
     (let allp = list_profiles pool;
          ps = map snd (profiles pool);
          disabled_names = map profile (filter disabled ps);
          limited = map profile (filter (\<lambda>p. or_zero (rate_limited_until_ms p) > at_ms) ps)
      in if disabled_names \<noteq> [] \<and> length disabled_names = length (profiles pool)
         then NoUsableAllDisabled allp
         else if limited \<noteq> [] \<and> length limited = length (profiles pool)
         then (let wait_target = arg_min_list wait_key ps
               in NoUsableAllRateLimited allp (effective_reset_at_ms wait_target)
                    (effective_email wait_target))
         else NoUsable allp)"

text \<open>\<open>list.index\<close> of an element known to be in the list.\<close>

fun index_of :: "'a \<Rightarrow> 'a list \<Rightarrow> nat" where
  "index_of x [] = 0"
| "index_of x (y # ys) = (if x = y then 0 else Suc (index_of x ys))"

text \<open>The round-robin branch applies when it returns; its condition, as the source has it.\<close>

definition round_robin_applies :: "OAuthPool \<Rightarrow> int \<Rightarrow> bool" where
  "round_robin_applies pool at_ms =
     (strategy_of pool = ''round-robin'' \<and> truthy_str (last_used_profile pool) \<and>
      the (last_used_profile pool)
        \<in> set (map profile (sort_key rank_key (usable_at pool at_ms))))"

definition choose_profile :: "OAuthPool \<Rightarrow> string option \<Rightarrow> int \<Rightarrow> pool_error + string" where
  "choose_profile pool explicit at_ms =
     (if truthy_str explicit then
        (if map_of (profiles pool) (the explicit) = None
         then Inl (ProfileNotFound (the explicit))
         else Inr (the explicit))
      else if truthy_str (pinned_profile pool) then
        (if map_of (profiles pool) (the (pinned_profile pool)) = None
         then Inl (PinnedProfileNotFound (the (pinned_profile pool)))
         else Inr (the (pinned_profile pool)))
      else
        (case sticky_choice pool at_ms of
           Some name \<Rightarrow> Inr name
         | None \<Rightarrow>
             (let usable = usable_at pool at_ms
              in if usable = [] then Inl (no_usable_error pool at_ms)
                 else
                   (let usable_sorted = sort_key rank_key usable
                    in if round_robin_applies pool at_ms then
                         (let usable_profiles = map profile usable_sorted;
                              i = index_of (the (last_used_profile pool)) usable_profiles
                          in Inr (usable_profiles ! ((i + 1) mod length usable_profiles)))
                       else Inr (profile (hd usable_sorted))))))"

text \<open>The loop \<open>for p in ranked_profiles: if p != current: return p\<close>.\<close>

fun first_other :: "string \<Rightarrow> string list \<Rightarrow> string option" where
  "first_other current [] = None"
| "first_other current (p # ps) = (if p \<noteq> current then Some p else first_other current ps)"

text \<open>\<open>rotate_after\<close> calls \<open>is_usable()\<close> with no argument: \<open>now\<close> is the clock reading.\<close>

definition rotate_after :: "OAuthPool \<Rightarrow> int \<Rightarrow> string \<Rightarrow> string option \<Rightarrow> pool_error + string" where
  "rotate_after pool now current explicit =
     (if truthy_str explicit then Inr (the explicit)
      else
        (let usable = usable_at pool now
         in if usable = [] then Inl NoUsableToRotate
            else
              (let ranked = sort_key rank_key usable;
                   ranked_profiles = map profile ranked
               in if current \<notin> set ranked_profiles then Inr (hd ranked_profiles)
                  else (case first_other current ranked_profiles of
                          Some p \<Rightarrow> Inr p
                        | None \<Rightarrow> Inr current))))"

definition mark_used :: "OAuthPool \<Rightarrow> string \<Rightarrow> string \<Rightarrow> OAuthPool" where
  "mark_used pool name iso_pool =
     pool\<lparr>last_used_profile := Some name, pool_updated_at := iso_pool\<rparr>"

text \<open>
  \<open>mark_rate_limited\<close> mutates the profile object stored under the key; the entry keeps
  its place in the dict. \<open>now\<close> is \<open>now_ms()\<close>, \<open>iso_p\<close> and \<open>iso_pool\<close> the two readings of
  \<open>now_iso()\<close>.
\<close>

definition mark_rate_limited ::
  "OAuthPool \<Rightarrow> string \<Rightarrow> int \<Rightarrow> int \<Rightarrow> string \<Rightarrow> string \<Rightarrow> OAuthPool" where
  "mark_rate_limited pool name until_ms now iso_p iso_pool =
     (case map_of (profiles pool) name of
        None \<Rightarrow> pool
      | Some p \<Rightarrow>
          pool\<lparr>profiles :=
                 map (\<lambda>(k, q). if k = name
                                then (k, q\<lparr>rate_limited_until_ms := Some (max until_ms now),
                                           updated_at := Some iso_p\<rparr>)
                                else (k, q)) (profiles pool),
               pool_updated_at := iso_pool\<rparr>)"

text \<open>
  The provider's use of the selected name (providers/openai_oauth_codex.py, \<open>chat\<close>):
  \<open>profile = pool.profiles.get(selected)\<close>, raising when it is missing.
\<close>

definition chat_lookup :: "OAuthPool \<Rightarrow> string \<Rightarrow> pool_error + OAuthProfile" where
  "chat_lookup pool selected =
     (case map_of (profiles pool) selected of
        None \<Rightarrow> Inl (SelectedProfileMissing selected)
      | Some p \<Rightarrow> Inr p)"

text \<open>
  The dict invariant and invariant (P1) of the pool: keys are distinct and every profile
  is stored under its own \<open>profile\<close> field. \<open>from_json\<close> and \<open>upsert_profile\<close> build
  pools that satisfy it.
\<close>

definition pool_wf :: "OAuthPool \<Rightarrow> bool" where
  "pool_wf pool =
     (distinct (map fst (profiles pool)) \<and> list_all (\<lambda>(k, p). profile p = k) (profiles pool))"

text \<open>The dataclass defaults of \<open>OAuthProfile(...)\<close> and \<open>OAuthPool.empty()\<close>.\<close>

definition default_profile :: "string \<Rightarrow> string \<Rightarrow> string \<Rightarrow> int \<Rightarrow> OAuthProfile" where
  "default_profile name access refresh expires =
     \<lparr>profile = name, access_token = access, refresh_token = refresh, expires_at_ms = expires,
      email = None, account_id = None, issuer = None, client_id = None, remaining = None,
      reset_at_ms = None, provider = None, last_seen_at = None, rate_limited_until_ms = None,
      disabled = False, updated_at = None\<rparr>"

definition empty_pool :: "string \<Rightarrow> OAuthPool" where
  "empty_pool iso_pool =
     \<lparr>version = 1, pool_provider = ''openai.codex.oauth.pool'', pool_updated_at = iso_pool,
      selection_strategy = ''sticky'', pinned_profile = None, last_used_profile = None,
      profiles = [], pool_issuer = None, pool_client_id = None, model = None,
      codex_endpoint = None\<rparr>"

subsection \<open>Example pools\<close>

text \<open>The pool of verify/oauth_pool_rotation_test.py: profiles \<open>a\<close> and \<open>b\<close>, no quota hints.\<close>

definition pool_ab :: OAuthPool where
  "pool_ab = (empty_pool ''2026-01-01T00:00:00Z'')\<lparr>profiles :=
      [(''a'', default_profile ''a'' ''tokenA'' ''refreshA'' 86400000),
       (''b'', default_profile ''b'' ''tokenB'' ''refreshB'' 86400000)]\<rparr>"

text \<open>
  The pool of verify/oauth_pool_deterministic_selection_test.py, with \<open>now_ms = 1000\<close>.
\<close>

definition pool_s1 :: OAuthPool where
  "pool_s1 = (empty_pool ''2026-01-01T00:00:00Z'')\<lparr>profiles :=
      [(''p1'', (default_profile ''p1'' ''t1'' ''r1'' 86401000)
                  \<lparr>email := Some ''b@example.com'', remaining := Some 100, reset_at_ms := Some 6000\<rparr>),
       (''p2'', (default_profile ''p2'' ''t2'' ''r2'' 86401000)
                  \<lparr>email := Some ''a@example.com'', remaining := Some 100, reset_at_ms := Some 2000\<rparr>),
       (''p3'', (default_profile ''p3'' ''t3'' ''r3'' 86401000)
                  \<lparr>email := Some ''c@example.com'', remaining := Some 50, reset_at_ms := Some 10000\<rparr>)]\<rparr>"

text \<open>A pool whose only profile is rate-limited until 5000.\<close>

definition pool_limited :: OAuthPool where
  "pool_limited = (empty_pool ''2026-01-01T00:00:00Z'')\<lparr>profiles :=
      [(''a'', (default_profile ''a'' ''tokenA'' ''refreshA'' 86400000)
                  \<lparr>rate_limited_until_ms := Some 5000\<rparr>)]\<rparr>"

text \<open>The pool \<open>a\<close>, \<open>b\<close> under round-robin, \<open>a\<close> last used.\<close>

definition pool_rr :: OAuthPool where
  "pool_rr = pool_ab\<lparr>selection_strategy := ''round-robin'', last_used_profile := Some ''a''\<rparr>"

text \<open>
  Three profiles with no quota hints, stored in the order \<open>c\<close>, \<open>a\<close>, \<open>b\<close>, under round-robin
  with \<open>l\<close> last used.
\<close>

definition pool_cab :: "string \<Rightarrow> OAuthPool" where
  "pool_cab l = (empty_pool ''2026-01-01T00:00:00Z'')\<lparr>selection_strategy := ''round-robin'',
      last_used_profile := Some l,
      profiles :=
        [(''c'', default_profile ''c'' ''tokenC'' ''refreshC'' 86400000),
         (''a'', default_profile ''a'' ''tokenA'' ''refreshA'' 86400000),
         (''b'', default_profile ''b'' ''tokenB'' ''refreshB'' 86400000)]\<rparr>"

text \<open>The pool of the selection test after its two edits: all three profiles tie on
  \<open>remaining\<close>, and \<open>p1\<close> ties with \<open>p2\<close> on \<open>resetAtMs\<close>.\<close>

definition pool_s1_tie :: OAuthPool where
  "pool_s1_tie = (empty_pool ''2026-01-01T00:00:00Z'')\<lparr>profiles :=
      [(''p1'', (default_profile ''p1'' ''t1'' ''r1'' 86401000)
                  \<lparr>email := Some ''b@example.com'', remaining := Some 100, reset_at_ms := Some 2000\<rparr>),
       (''p2'', (default_profile ''p2'' ''t2'' ''r2'' 86401000)
                  \<lparr>email := Some ''a@example.com'', remaining := Some 100, reset_at_ms := Some 2000\<rparr>),
       (''p3'', (default_profile ''p3'' ''t3'' ''r3'' 86401000)
                  \<lparr>email := Some ''c@example.com'', remaining := Some 100, reset_at_ms := Some 10000\<rparr>)]\<rparr>"

section \<open>Evidence log (runner/run_smoke.py, EvidenceWriter)\<close>

text \<open>
  The evidence file is the list of the lines written to it, each the UTF-8 bytes that
  reached the file; its size (\<open>st_size\<close>) is the number of those bytes, 0 for a file that
  does not exist yet. The file system is taken to be reliable: \<open>stat\<close> reports the true
  size and a write appends all its bytes. An event enters \<open>append\<close> as \<open>body\<close>, the UTF-8
  bytes of \<open>json.dumps({"schemaVersion": 1, **obj})\<close>, together with \<open>truncated\<close>, the
  bytes of the \<open>evidence.truncated\<close> record that \<open>json.dumps\<close> would produce at that
  moment.
\<close>

record EvidenceWriter =
  max_bytes :: int
  writer_disabled :: bool

datatype written = EventLine string | TruncatedLine string

fun written_bytes :: "written \<Rightarrow> string" where
  "written_bytes (EventLine s) = s"
| "written_bytes (TruncatedLine s) = s"

fun is_truncated_line :: "written \<Rightarrow> bool" where
  "is_truncated_line (EventLine s) = False"
| "is_truncated_line (TruncatedLine s) = True"

definition st_size :: "written list \<Rightarrow> int" where
  "st_size f = int (length (concat (map written_bytes f)))"

definition new_writer :: "int \<Rightarrow> EvidenceWriter" where
  "new_writer b = \<lparr>max_bytes = b, writer_disabled = False\<rparr>"

definition evidence_append ::
  "EvidenceWriter \<Rightarrow> written list \<Rightarrow> string \<Rightarrow> string \<Rightarrow> EvidenceWriter \<times> written list" where
  "evidence_append w f body truncated =
     (if writer_disabled w then (w, f)
      else
        (let line = body @ [CHR 0x0A];
             current = st_size f
         in if max_bytes w > 0 \<and> current + int (length line) > max_bytes w then
              (let w' = w\<lparr>writer_disabled := True\<rparr>
               in if max_bytes w \<le> 0 then (w', f)
                  else if current + int (length truncated) + 1 \<le> max_bytes w
                  then (w', f @ [TruncatedLine (truncated @ [CHR 0x0A])])
                  else (w', f))
            else (w, f @ [EventLine line])))"

text \<open>A run: the appends of a sequence of events, in order.\<close>

fun append_all ::
  "EvidenceWriter \<Rightarrow> written list \<Rightarrow> (string \<times> string) list \<Rightarrow> EvidenceWriter \<times> written list" where
  "append_all w f [] = (w, f)"
| "append_all w f ((body, truncated) # es) =
     (case evidence_append w f body truncated of (w', f') \<Rightarrow> append_all w' f' es)"

text \<open>The bytes the events of a sequence would take, each with its newline.\<close>

definition lines_size :: "(string \<times> string) list \<Rightarrow> int" where
  "lines_size es = (\<Sum>(body, truncated)\<leftarrow>es. int (length body) + 1)"

definition event_lines :: "(string \<times> string) list \<Rightarrow> written list" where
  "event_lines es = map (\<lambda>(body, truncated). EventLine (body @ [CHR 0x0A])) es"

section \<open>JSON values\<close>

text \<open>
  What \<open>json.loads\<close> returns: \<open>None\<close>, a \<open>bool\<close>, an \<open>int\<close>, a finite \<open>float\<close>, a
  \<open>str\<close>, a \<open>list\<close> or a \<open>dict\<close> with string keys (an association list with distinct
  keys, in insertion order). \<open>json.dumps\<close> and \<open>json.loads\<close> themselves are library code:
  where a function calls them, the model takes them as parameters.
\<close>

datatype json =
    JNull
  | JBool bool
  | JInt int
  | JFloat rat
  | JStr string
  | JArr "json list"
  | JObj "(string \<times> json) list"

section \<open>Framed stdio JSON-RPC (runner/mcp_stdio.py)\<close>

text \<open>
  A \<open>bytes\<close> value is a \<open>string\<close> whose characters are the bytes. The header is ASCII
  in every frame \<open>encode_message\<close> produces; \<open>decode("utf-8", errors="replace")\<close> is the
  identity on ASCII and the model reads each header byte as the character of the same
  code.
\<close>

definition HEADER_SEPARATOR :: string where
  "HEADER_SEPARATOR = [CHR 0x0D, CHR 0x0A, CHR 0x0D, CHR 0x0A]"

text \<open>The decimal digits of \<open>len(body)\<close>, as the f-string renders them.\<close>

definition digit_char :: "nat \<Rightarrow> char" where
  "digit_char k = ''0123456789'' ! k"

fun show_nat :: "nat \<Rightarrow> string" where
  "show_nat n = (if n < 10 then [digit_char n] else show_nat (n div 10) @ [digit_char (n mod 10)])"

declare show_nat.simps [simp del]

text \<open>
  \<open>encode_message(obj)\<close>; \<open>dumps obj\<close> stands for
  \<open>json.dumps(obj, ensure_ascii=False).encode("utf-8")\<close>.
\<close>

definition encode_message :: "('v \<Rightarrow> string) \<Rightarrow> 'v \<Rightarrow> string" where
  "encode_message dumps obj =
     (let body = dumps obj;
          header = ''Content-Length: '' @ show_nat (length body) @ HEADER_SEPARATOR
      in header @ body)"

text \<open>\<open>bytes.find(sub)\<close>: the first index where \<open>sub\<close> occurs, \<open>None\<close> for -1.\<close>

fun find_sub :: "string \<Rightarrow> string \<Rightarrow> nat option" where
  "find_sub sub [] = (if sub = [] then Some 0 else None)"
| "find_sub sub (c # cs) =
     (if prefix sub (c # cs) then Some 0 else map_option Suc (find_sub sub cs))"

text \<open>\<open>str.split(sep)\<close> for a non-empty separator.\<close>

function py_split :: "string \<Rightarrow> string \<Rightarrow> string list" where
  "py_split sep s =
     (if sep = [] then [s]
      else (case find_sub sep s of
              None \<Rightarrow> [s]
            | Some i \<Rightarrow> take i s # py_split sep (drop (i + length sep) s)))"
  by pat_completeness auto

lemma find_sub_Some_le: "find_sub sub s = Some i \<Longrightarrow> i + length sub \<le> length s"
proof (induction s arbitrary: i)
  case Nil
  then show ?case by (simp split: if_splits)
next
  case (Cons c cs)
  show ?case
  proof (cases "prefix sub (c # cs)")
    case True
    with Cons.prems have "i = 0" by simp
    with prefix_length_le [OF True] show ?thesis by simp
  next
    case False
    with Cons.prems obtain j where "find_sub sub cs = Some j" "i = Suc j" by auto
    with Cons.IH show ?thesis by simp
  qed
qed

termination py_split
proof (relation "measure (\<lambda>(sep, s). length s)")
  show "wf (measure (\<lambda>(sep, s). length s))" by simp
next
  fix sep s :: string and i
  assume ne: "sep \<noteq> []" and found: "find_sub sep s = Some i"
  from found have "i + length sep \<le> length s" by (rule find_sub_Some_le)
  moreover from ne have "0 < length sep" by simp
  ultimately have "length s - (i + length sep) < length s" by arith
  then show "((sep, drop (i + length sep) s), (sep, s)) \<in> measure (\<lambda>(sep, s). length s)"
    by simp
qed

declare py_split.simps [simp del]

text \<open>\<open>line.split(":", 1)\<close>: \<open>None\<close> when the line has no colon (one part), else the two parts.\<close>

definition split_colon :: "string \<Rightarrow> (string \<times> string) option" where
  "split_colon line =
     (if CHR '':'' \<in> set line
      then Some (takeWhile (\<lambda>c. c \<noteq> CHR '':'') line, tl (dropWhile (\<lambda>c. c \<noteq> CHR '':'') line))
      else None)"

text \<open>
  \<open>int(v)\<close> on a \<open>str\<close>, \<open>None\<close> for \<open>ValueError\<close>: surrounding whitespace, an optional
  sign, then decimal digits in which single underscores may separate digits. The
  whitespace \<open>int\<close> skips is ASCII's and the Unicode whitespace beyond ASCII; unlike
  \<open>str.strip\<close> it does not skip the separators 28 to 31. (CPython's cap on the number of
  digits, 4300 by default, is not modelled.)
\<close>

definition int_isspace :: "char \<Rightarrow> bool" where
  "int_isspace c = ((of_char c :: nat) \<in> {9, 10, 11, 12, 13, 32, 133, 160})"

definition is_digit :: "char \<Rightarrow> bool" where
  "is_digit c = (CHR ''0'' \<le> c \<and> c \<le> CHR ''9'')"

definition digit_val :: "char \<Rightarrow> nat" where
  "digit_val c = of_char c - 48"

fun int_digits :: "string \<Rightarrow> string option" where
  "int_digits [] = None"
| "int_digits [c] = (if is_digit c then Some [c] else None)"
| "int_digits (c # d # r) =
     (if is_digit c then
        (if d = CHR ''_'' then map_option (Cons c) (int_digits r)
         else map_option (Cons c) (int_digits (d # r)))
      else None)"

definition digits_value :: "string \<Rightarrow> nat" where
  "digits_value ds = foldl (\<lambda>a c. 10 * a + digit_val c) 0 ds"

definition py_int_str :: "string \<Rightarrow> int option" where
  "py_int_str s =
     (case rev (dropWhile int_isspace (rev (dropWhile int_isspace s))) of
        [] \<Rightarrow> None
      | c # r \<Rightarrow>
          if c = CHR ''-'' then map_option (\<lambda>ds. - int (digits_value ds)) (int_digits r)
          else if c = CHR ''+'' then map_option (\<lambda>ds. int (digits_value ds)) (int_digits r)
          else map_option (\<lambda>ds. int (digits_value ds)) (int_digits (c # r)))"

text \<open>
  The header loop of \<open>_try_parse_one\<close>: the first line whose key is \<open>content-length\<close>
  decides (\<open>break\<close>), with \<open>None\<close> when its value is not an integer.
\<close>

fun scan_headers :: "string list \<Rightarrow> int option" where
  "scan_headers [] = None"
| "scan_headers (line # rest) =
     (case split_colon line of
        None \<Rightarrow> scan_headers rest
      | Some (k0, v0) \<Rightarrow>
          if py_lower (py_strip k0) = ''content-length'' then py_int_str (py_strip v0)
          else scan_headers rest)"

text \<open>A slice \<open>s[a:b]\<close> and \<open>s[a:]\<close> with Python's treatment of negative and large indices.\<close>

definition slice_index :: "'a list \<Rightarrow> int \<Rightarrow> nat" where
  "slice_index s i =
     (if i < 0 then nat (max 0 (int (length s) + i)) else min (nat i) (length s))"

definition py_slice :: "'a list \<Rightarrow> int \<Rightarrow> int \<Rightarrow> 'a list" where
  "py_slice s a b = take (slice_index s b - slice_index s a) (drop (slice_index s a) s)"

definition py_slice_from :: "'a list \<Rightarrow> int \<Rightarrow> 'a list" where
  "py_slice_from s a = drop (slice_index s a) s"

datatype parse_error = JSONDecodeError

text \<open>
  \<open>_try_parse_one(buffer)\<close>. \<open>loads body\<close> stands for \<open>json.loads(body.decode("utf-8"))\<close>,
  \<open>None\<close> when it raises. The first component of the result is Python's \<open>None\<close> or the
  message; a body that parses to \<open>null\<close> is returned as \<open>None\<close>.
\<close>

definition try_parse_one ::
  "(string \<Rightarrow> json option) \<Rightarrow> string \<Rightarrow> parse_error + (json option \<times> string)" where
  "try_parse_one loads buffer =
     (case find_sub HEADER_SEPARATOR buffer of
        None \<Rightarrow> Inr (None, buffer)
      | Some header_end \<Rightarrow>
          (let header_text = take header_end buffer
           in case scan_headers (py_split [CHR 0x0D, CHR 0x0A] header_text) of
                None \<Rightarrow> Inr (None, buffer)
              | Some content_length \<Rightarrow>
                  (let body_start = int header_end + int (length HEADER_SEPARATOR);
                       body_end = body_start + content_length
                   in if int (length buffer) < body_end then Inr (None, buffer)
                      else
                        (let body = py_slice buffer body_start body_end;
                             rest = py_slice_from buffer body_end
                         in case loads body of
                              None \<Rightarrow> Inl JSONDecodeError
                            | Some v \<Rightarrow> Inr (if v = JNull then None else Some v, rest)))))"

text \<open>A serialiser and a parser for the frames of the examples: they know \<open>{}\<close> and \<open>null\<close>.\<close>

definition stub_dumps :: "json \<Rightarrow> string" where
  "stub_dumps v = (if v = JObj [] then ''{}'' else ''null'')"

definition stub_loads :: "string \<Rightarrow> json option" where
  "stub_loads s = (if s = ''{}'' then Some (JObj []) else if s = ''null'' then Some JNull else None)"

section \<open>Loading a pool (runner/auth/openai_oauth_pool.py)\<close>

text \<open>
  The builtins whose results the model does not compute are parameters: \<open>str_of v\<close> is
  \<open>str(v)\<close> for a value that is not a \<open>str\<close>, \<open>float_of_int i\<close> is \<open>float(i)\<close> (\<open>None\<close> for
  \<open>OverflowError\<close>) and \<open>now_iso\<close> is the reading of the clock.
\<close>

record py_env =
  str_of :: "json \<Rightarrow> string"
  float_of_int :: "int \<Rightarrow> rat option"
  now_iso :: string

datatype load_error =
    TypeError
  | ValueError
  | OverflowError
  | JSONDecodeFailed
  | InvalidPoolFile
  | UnsupportedPoolVersion
  | InvalidPoolVersion
  | PoolHasNoProfiles
  | TokenFileNotFound
  | InvalidTokenFile
  | TokenFileMissingTokens

text \<open>\<open>obj.get(k)\<close>, \<open>bool(v)\<close> and \<open>a or b\<close> on JSON values.\<close>

definition jget :: "(string \<times> json) list \<Rightarrow> string \<Rightarrow> json" where
  "jget obj k = (case map_of obj k of None \<Rightarrow> JNull | Some v \<Rightarrow> v)"

fun py_truthy :: "json \<Rightarrow> bool" where
  "py_truthy JNull = False"
| "py_truthy (JBool b) = b"
| "py_truthy (JInt i) = (i \<noteq> 0)"
| "py_truthy (JFloat r) = (r \<noteq> 0)"
| "py_truthy (JStr s) = (s \<noteq> [])"
| "py_truthy (JArr xs) = (xs \<noteq> [])"
| "py_truthy (JObj kvs) = (kvs \<noteq> [])"

definition py_or :: "json \<Rightarrow> json \<Rightarrow> json" where
  "py_or a b = (if py_truthy a then a else b)"

fun py_str :: "py_env \<Rightarrow> json \<Rightarrow> string" where
  "py_str env (JStr s) = s"
| "py_str env v = str_of env v"

text \<open>\<open>int(v)\<close>: a \<open>bool\<close> is an \<open>int\<close>, a \<open>float\<close> is truncated towards zero, a \<open>str\<close> is parsed.\<close>

fun py_int :: "json \<Rightarrow> load_error + int" where
  "py_int (JInt i) = Inr i"
| "py_int (JBool b) = Inr (if b then 1 else 0)"
| "py_int (JFloat r) = Inr (if r \<ge> 0 then \<lfloor>r\<rfloor> else \<lceil>r\<rceil>)"
| "py_int (JStr s) = (case py_int_str s of None \<Rightarrow> Inl ValueError | Some i \<Rightarrow> Inr i)"
| "py_int JNull = Inl TypeError"
| "py_int (JArr xs) = Inl TypeError"
| "py_int (JObj kvs) = Inl TypeError"

text \<open>\<open>v if isinstance(v, str) else None\<close>\<close>

fun str_or_none :: "json \<Rightarrow> string option" where
  "str_or_none (JStr s) = Some s"
| "str_or_none v = None"

text \<open>\<open>v if isinstance(v, str) and v else None\<close>\<close>

fun nonempty_str_or_none :: "json \<Rightarrow> string option" where
  "nonempty_str_or_none (JStr s) = (if s \<noteq> [] then Some s else None)"
| "nonempty_str_or_none v = None"

text \<open>\<open>int(v) if isinstance(v, int) else None\<close>; \<open>bool\<close> is a subclass of \<open>int\<close>.\<close>

fun int_or_none :: "json \<Rightarrow> int option" where
  "int_or_none (JInt i) = Some i"
| "int_or_none (JBool b) = Some (if b then 1 else 0)"
| "int_or_none v = None"

text \<open>\<open>float(v) if isinstance(v, (int, float)) else None\<close>\<close>

fun float_or_none :: "py_env \<Rightarrow> json \<Rightarrow> load_error + rat option" where
  "float_or_none env (JInt i) =
     (case float_of_int env i of None \<Rightarrow> Inl OverflowError | Some r \<Rightarrow> Inr (Some r))"
| "float_or_none env (JBool b) = Inr (Some (if b then 1 else 0))"
| "float_or_none env (JFloat r) = Inr (Some r)"
| "float_or_none env v = Inr None"

text \<open>\<open>d[k] = v\<close> on a dict: an existing key keeps its place.\<close>

definition dict_set :: "('k \<times> 'v) list \<Rightarrow> 'k \<Rightarrow> 'v \<Rightarrow> ('k \<times> 'v) list" where
  "dict_set d k v =
     (if k \<in> fst ` set d then map (\<lambda>(k', v'). if k' = k then (k', v) else (k', v')) d
      else d @ [(k, v)])"

text \<open>\<open>{**a, **b}\<close>\<close>

definition dict_merge :: "('k \<times> 'v) list \<Rightarrow> ('k \<times> 'v) list \<Rightarrow> ('k \<times> 'v) list" where
  "dict_merge a b = foldl (\<lambda>acc (k, v). dict_set acc k v) a b"

text \<open>
  \<open>OAuthProfile.from_json\<close>. Keyword arguments are evaluated in the order written:
  \<open>int(...)\<close> of \<open>expiresAtMs\<close> can raise, then \<open>float(...)\<close> of \<open>remaining\<close>.
\<close>

definition profile_from_json :: "py_env \<Rightarrow> (string \<times> json) list \<Rightarrow> load_error + OAuthProfile" where
  "profile_from_json env obj =
     (case py_int (py_or (jget obj ''expiresAtMs'') (JInt 0)) of
        Inl e \<Rightarrow> Inl e
      | Inr expires \<Rightarrow>
          (case float_or_none env (jget obj ''remaining'') of
             Inl e \<Rightarrow> Inl e
           | Inr rem \<Rightarrow>
               Inr \<lparr>profile = py_str env (py_or (jget obj ''profile'') (JStr [])),
                    access_token = py_str env (py_or (jget obj ''accessToken'') (JStr [])),
                    refresh_token = py_str env (py_or (jget obj ''refreshToken'') (JStr [])),
                    expires_at_ms = expires,
                    email = nonempty_str_or_none (jget obj ''email''),
                    account_id = str_or_none (jget obj ''accountId''),
                    issuer = str_or_none (jget obj ''issuer''),
                    client_id = str_or_none (jget obj ''clientId''),
                    remaining = rem,
                    reset_at_ms = int_or_none (jget obj ''resetAtMs''),
                    provider = nonempty_str_or_none (jget obj ''provider''),
                    last_seen_at = nonempty_str_or_none (jget obj ''lastSeenAt''),
                    rate_limited_until_ms = int_or_none (jget obj ''rateLimitedUntilMs''),
                    disabled = py_truthy (py_or (jget obj ''disabled'') (JBool False)),
                    updated_at = str_or_none (jget obj ''updatedAt'')\<rparr>))"

text \<open>The loop of \<open>OAuthPool.from_json\<close> over \<open>profs.items()\<close>; every key of a JSON object is a \<open>str\<close>.\<close>

fun load_profiles ::
  "py_env \<Rightarrow> (string \<times> json) list \<Rightarrow> (string \<times> OAuthProfile) list
   \<Rightarrow> load_error + (string \<times> OAuthProfile) list" where
  "load_profiles env [] acc = Inr acc"
| "load_profiles env ((k, v) # rest) acc =
     (case v of
        JObj d \<Rightarrow>
          (case profile_from_json env (dict_merge [(''profile'', JStr k)] d) of
             Inl e \<Rightarrow> Inl e
           | Inr p \<Rightarrow>
               if profile p \<noteq> [] then load_profiles env rest (dict_set acc (profile p) p)
               else load_profiles env rest acc)
      | _ \<Rightarrow> load_profiles env rest acc)"

text \<open>\<open>v if isinstance(v, dict) else {}\<close>\<close>

fun dict_or_empty :: "json \<Rightarrow> (string \<times> json) list" where
  "dict_or_empty (JObj d) = d"
| "dict_or_empty v = []"

definition pool_from_json :: "py_env \<Rightarrow> (string \<times> json) list \<Rightarrow> load_error + OAuthPool" where
  "pool_from_json env obj =
     (let selection = dict_or_empty (jget obj ''selection'');
          profs = dict_or_empty (jget obj ''profiles'')
      in case load_profiles env profs [] of
           Inl e \<Rightarrow> Inl e
         | Inr loaded \<Rightarrow>
             (case py_int (py_or (jget obj ''version'') (JInt 1)) of
                Inl e \<Rightarrow> Inl e
              | Inr ver \<Rightarrow>
                  Inr \<lparr>version = ver,
                       pool_provider =
                         py_str env (py_or (jget obj ''provider'') (JStr ''openai.codex.oauth.pool'')),
                       pool_updated_at =
                         py_str env (py_or (jget obj ''updatedAt'') (JStr (now_iso env))),
                       selection_strategy =
                         py_str env (py_or (jget selection ''strategy'') (JStr ''sticky'')),
                       pinned_profile = str_or_none (jget selection ''pinnedProfile''),
                       last_used_profile = str_or_none (jget selection ''lastUsedProfile''),
                       profiles = loaded,
                       pool_issuer = str_or_none (jget obj ''issuer''),
                       pool_client_id = str_or_none (jget obj ''clientId''),
                       model = str_or_none (jget obj ''model''),
                       codex_endpoint = str_or_none (jget obj ''codexEndpoint'')\<rparr>))"

text \<open>
  \<open>load_pool(path)\<close>. The file is \<open>None\<close> when the path does not exist, else its text;
  \<open>loads\<close> is \<open>json.loads\<close>, \<open>None\<close> when it raises.
\<close>

definition load_pool ::
  "py_env \<Rightarrow> (string \<Rightarrow> json option) \<Rightarrow> string option \<Rightarrow> load_error + OAuthPool" where
  "load_pool env loads file =
     (case file of
        None \<Rightarrow> Inr (empty_pool (now_iso env))
      | Some text \<Rightarrow>
          (case loads text of
             None \<Rightarrow> Inl JSONDecodeFailed
           | Some data \<Rightarrow>
               (case data of
                  JObj obj \<Rightarrow> pool_from_json env obj
                | _ \<Rightarrow> Inl InvalidPoolFile)))"

text \<open>\<open>a or b\<close> on optional strings.\<close>

definition opt_or :: "string option \<Rightarrow> string option \<Rightarrow> string option" where
  "opt_or a b = (if truthy_str a then a else b)"

definition fields_get :: "(string \<times> string option) list \<Rightarrow> string \<Rightarrow> string option" where
  "fields_get d k = (case map_of d k of None \<Rightarrow> None | Some v \<Rightarrow> v)"

text \<open>
  \<open>upsert_profile(path, profile, pool_fields)\<close>. The pool it returns is the pool
  \<open>save_pool\<close> has written to the path.
\<close>

definition upsert_profile ::
  "py_env \<Rightarrow> (string \<Rightarrow> json option) \<Rightarrow> string option \<Rightarrow> OAuthProfile
   \<Rightarrow> (string \<times> string option) list \<Rightarrow> load_error + (OAuthPool \<times> string)" where
  "upsert_profile env loads file p pool_fields =
     (case load_pool env loads file of
        Inl e \<Rightarrow> Inl e
      | Inr pool \<Rightarrow>
          if version pool \<noteq> 1 then Inl UnsupportedPoolVersion
          else
            (let pool1 = pool\<lparr>pool_issuer := opt_or (fields_get pool_fields ''issuer'') (pool_issuer pool),
                              pool_client_id := opt_or (fields_get pool_fields ''clientId'') (pool_client_id pool),
                              model := opt_or (fields_get pool_fields ''model'') (model pool),
                              codex_endpoint := opt_or (fields_get pool_fields ''codexEndpoint'') (codex_endpoint pool)\<rparr>;
                 pool2 = pool1\<lparr>profiles := dict_set (profiles pool1) (profile p) p\<rparr>;
                 pool3 = mark_used pool2 (profile p) (now_iso env)
             in Inr (pool3, profile p)))"

text \<open>
  The \<open>strategy\<close> command of auth/openai_oauth_manage.py (\<open>main\<close>): the pool file is
  loaded, the strategy is set and the pool is saved. The first component of the result is
  the pool \<open>save_pool\<close> has written (\<open>None\<close> when nothing is saved), the second the exit
  code.
\<close>

definition manage_strategy ::
  "py_env \<Rightarrow> (string \<Rightarrow> json option) \<Rightarrow> string option \<Rightarrow> string
   \<Rightarrow> load_error + (OAuthPool option \<times> int)" where
  "manage_strategy env loads file arg =
     (case load_pool env loads file of
        Inl e \<Rightarrow> Inl e
      | Inr pool \<Rightarrow>
          (let name = py_lower (py_strip arg)
           in if name \<notin> {''sticky'', ''round-robin''} then Inr (None, 2)
              else Inr (Some (pool\<lparr>selection_strategy := name\<rparr>), 0)))"

text \<open>
  \<open>OpenAICodexOAuthProvider._load_pool_or_single\<close> (providers/openai_oauth_codex.py). The
  configuration is the part of \<open>OpenAICodexOAuthConfig\<close> the function reads; the pool file
  and the token file are \<open>None\<close> when their paths do not exist. \<open>data.get("version") != 1\<close>
  compares Python values: \<open>1\<close>, \<open>1.0\<close> and \<open>True\<close> are equal to \<open>1\<close>.
\<close>

record OpenAICodexOAuthConfig =
  cfg_issuer :: string
  cfg_client_id :: string
  cfg_model :: string
  cfg_codex_endpoint :: string
  cfg_selection_strategy :: string

fun equals_one :: "json \<Rightarrow> bool" where
  "equals_one (JInt i) = (i = 1)"
| "equals_one (JFloat r) = (r = 1)"
| "equals_one (JBool b) = b"
| "equals_one v = False"

definition str_or_default :: "json \<Rightarrow> string \<Rightarrow> string" where
  "str_or_default v d = (case v of JStr s \<Rightarrow> s | _ \<Rightarrow> d)"

definition single_token_pool ::
  "py_env \<Rightarrow> OpenAICodexOAuthConfig \<Rightarrow> (string \<times> json) list \<Rightarrow> load_error + OAuthPool" where
  "single_token_pool env cfg data =
     (let access = py_str env (py_or (jget data ''accessToken'') (JStr []));
          refresh = py_str env (py_or (jget data ''refreshToken'') (JStr []))
      in case py_int (py_or (jget data ''expiresAtMs'') (JInt 0)) of
           Inl e \<Rightarrow> Inl e
         | Inr expires \<Rightarrow>
             if access = [] \<or> refresh = [] then Inl TokenFileMissingTokens
             else
               (let p = (default_profile ''default'' access refresh expires)
                          \<lparr>account_id := str_or_none (jget data ''accountId''),
                           issuer := Some (str_or_default (jget data ''issuer'') (cfg_issuer cfg)),
                           client_id :=
                             Some (str_or_default (jget data ''clientId'') (cfg_client_id cfg))\<rparr>;
                    m = py_str env (py_or (jget data ''model'') (JStr []));
                    ce = py_str env (py_or (jget data ''codexEndpoint'') (JStr []))
                in Inr ((empty_pool (now_iso env))
                          \<lparr>pool_issuer := issuer p,
                           pool_client_id := client_id p,
                           model := Some (if m \<noteq> [] then m else cfg_model cfg),
                           codex_endpoint := Some (if ce \<noteq> [] then ce else cfg_codex_endpoint cfg),
                           selection_strategy := cfg_selection_strategy cfg,
                           profiles := dict_set [] (profile p) p,
                           last_used_profile := Some (profile p)\<rparr>)))"

definition load_pool_or_single ::
  "py_env \<Rightarrow> (string \<Rightarrow> json option) \<Rightarrow> OpenAICodexOAuthConfig \<Rightarrow> string option
   \<Rightarrow> string option \<Rightarrow> load_error + (OAuthPool \<times> string)" where
  "load_pool_or_single env loads cfg pool_text token_text =
     (if pool_text \<noteq> None then
        (case load_pool env loads pool_text of
           Inl e \<Rightarrow> Inl e
         | Inr pool \<Rightarrow>
             if version pool \<noteq> 1 then Inl InvalidPoolVersion
             else if profiles pool = [] then Inl PoolHasNoProfiles
             else Inr (pool\<lparr>pool_issuer := opt_or (pool_issuer pool) (Some (cfg_issuer cfg)),
                            pool_client_id := opt_or (pool_client_id pool) (Some (cfg_client_id cfg)),
                            model := opt_or (model pool) (Some (cfg_model cfg)),
                            codex_endpoint :=
                              opt_or (codex_endpoint pool) (Some (cfg_codex_endpoint cfg))\<rparr>,
                       ''pool''))
      else
        (case token_text of
           None \<Rightarrow> Inl TokenFileNotFound
         | Some raw \<Rightarrow>
             (case loads raw of
                None \<Rightarrow> Inl JSONDecodeFailed
              | Some (JObj data) \<Rightarrow>
                  if \<not> equals_one (jget data ''version'') then Inl InvalidTokenFile
                  else map_sum id (\<lambda>pool. (pool, ''single'')) (single_token_pool env cfg data)
              | Some _ \<Rightarrow> Inl InvalidTokenFile)))"

subsection \<open>Example pool files\<close>

definition stub_env :: py_env where
  "stub_env = \<lparr>str_of = (\<lambda>v. ''?''), float_of_int = (\<lambda>i. Some (of_int i)),
               now_iso = ''2026-01-01T00:00:00Z''\<rparr>"

definition stub_cfg :: OpenAICodexOAuthConfig where
  "stub_cfg = \<lparr>cfg_issuer = ''https://auth.openai.com'', cfg_client_id = ''client'',
               cfg_model = ''gpt-5.2-codex'',
               cfg_codex_endpoint = ''https://chatgpt.com/backend-api/codex/responses'',
               cfg_selection_strategy = ''sticky''\<rparr>"

text \<open>A pool file with one profile and the given version.\<close>

definition pool_file :: "int \<Rightarrow> json" where
  "pool_file v =
     JObj [(''version'', JInt v),
           (''provider'', JStr ''openai.codex.oauth.pool''),
           (''updatedAt'', JStr ''2025-12-31T00:00:00Z''),
           (''selection'', JObj [(''strategy'', JStr ''sticky''), (''pinnedProfile'', JNull),
                                 (''lastUsedProfile'', JStr ''a'')]),
           (''profiles'', JObj [(''a'', JObj [(''profile'', JStr ''a''),
                                              (''accessToken'', JStr ''tokenA''),
                                              (''refreshToken'', JStr ''refreshA''),
                                              (''expiresAtMs'', JInt 86400000),
                                              (''remaining'', JNull),
                                              (''disabled'', JBool False)])])]"

section \<open>Redactor (runner/run_smoke.py)\<close>

definition REDACTED :: string where
  "REDACTED = ''<redacted>''"

text \<open>
  \<open>text.replace(old, new)\<close>: the non-overlapping occurrences of \<open>old\<close>, left to right. For
  an empty \<open>old\<close> Python puts \<open>new\<close> before every character and at the end.
\<close>

function py_replace :: "string \<Rightarrow> string \<Rightarrow> string \<Rightarrow> string" where
  "py_replace s old new =
     (if old = [] then new @ concat (map (\<lambda>c. c # new) s)
      else if s = [] then []
      else if prefix old s then new @ py_replace (drop (length old) s) old new
      else hd s # py_replace (tl s) old new)"
  by pat_completeness auto
termination
  by (relation "measure (\<lambda>(s, old, new). length s)") (auto simp: neq_Nil_conv)

declare py_replace.simps [simp del]

text \<open>
  The pattern \<open>Bearer\s+[A-Za-z0-9._-]+\<close>. \<open>\s\<close> is Python's Unicode whitespace
  (\<open>py_isspace\<close>). Both quantifiers are greedy and the two classes are disjoint, so a match
  at a position is unique: the word, the whole run of whitespace, the whole run of token
  characters, both runs non-empty. \<open>bearer_match s\<close> is the length of the match at the
  start of \<open>s\<close>.
\<close>

definition is_token_char :: "char \<Rightarrow> bool" where
  "is_token_char c =
     ((CHR ''A'' \<le> c \<and> c \<le> CHR ''Z'') \<or> (CHR ''a'' \<le> c \<and> c \<le> CHR ''z'')
      \<or> (CHR ''0'' \<le> c \<and> c \<le> CHR ''9'') \<or> c = CHR ''.'' \<or> c = CHR ''_'' \<or> c = CHR ''-'')"

definition bearer_match :: "string \<Rightarrow> nat option" where
  "bearer_match s =
     (if prefix ''Bearer'' s then
        (let r = drop 6 s;
             ws = takeWhile py_isspace r;
             tok = takeWhile is_token_char (dropWhile py_isspace r)
         in if ws \<noteq> [] \<and> tok \<noteq> [] then Some (6 + length ws + length tok) else None)
      else None)"

text \<open>\<open>re.sub(pattern, "Bearer <redacted>", text)\<close>: leftmost matches, none overlapping.\<close>

definition BEARER_REDACTED :: string where
  "BEARER_REDACTED = ''Bearer <redacted>''"

function re_sub_bearer :: "string \<Rightarrow> string" where
  "re_sub_bearer s =
     (if s = [] then []
      else (case bearer_match s of
              Some n \<Rightarrow> BEARER_REDACTED @ re_sub_bearer (drop n s)
            | None \<Rightarrow> hd s # re_sub_bearer (tl s)))"
  by pat_completeness auto
termination
  by (relation "measure length") (auto simp: bearer_match_def Let_def neq_Nil_conv split: if_splits)

declare re_sub_bearer.simps [simp del]

text \<open>The body of the loop \<open>for s in secrets\<close>, and \<open>redact_text\<close>.\<close>

definition replace_secret :: "string \<Rightarrow> string \<Rightarrow> string" where
  "replace_secret t s = (if s \<noteq> [] then py_replace t s REDACTED else t)"

definition redact_text :: "string \<Rightarrow> string list \<Rightarrow> string" where
  "redact_text txt secrets = re_sub_bearer (foldl replace_secret txt secrets)"

text \<open>The keys whose values are replaced whole: \<open>str(k).lower() in (...)\<close>.\<close>

definition sensitive_key :: "string \<Rightarrow> bool" where
  "sensitive_key k = (py_lower k \<in> {''authorization'', ''api_key'', ''apikey''})"

text \<open>
  \<open>redact_obj\<close> on the values the runner logs: JSON-like values whose dicts have string
  keys. Anything that is not a \<open>str\<close>, a \<open>list\<close> or a \<open>dict\<close> is returned as it is.
\<close>

fun redact_obj :: "json \<Rightarrow> string list \<Rightarrow> json" where
  "redact_obj (JStr s) secrets = JStr (redact_text s secrets)"
| "redact_obj (JArr xs) secrets = JArr (map (\<lambda>x. redact_obj x secrets) xs)"
| "redact_obj (JObj kvs) secrets =
     JObj (map (\<lambda>kv. if sensitive_key (fst kv) then (fst kv, JStr REDACTED)
                       else (fst kv, redact_obj (snd kv) secrets)) kvs)"
| "redact_obj JNull secrets = JNull"
| "redact_obj (JBool b) secrets = JBool b"
| "redact_obj (JInt i) secrets = JInt i"
| "redact_obj (JFloat r) secrets = JFloat r"

text \<open>
  The strings a serialisation of a value spells out: its dict keys and its string values
  (\<open>json_strings\<close>), and the string values alone (\<open>json_values\<close>).
\<close>

fun json_strings :: "json \<Rightarrow> string list" where
  "json_strings (JStr s) = [s]"
| "json_strings (JArr xs) = concat (map json_strings xs)"
| "json_strings (JObj kvs) = concat (map (\<lambda>kv. fst kv # json_strings (snd kv)) kvs)"
| "json_strings JNull = []"
| "json_strings (JBool b) = []"
| "json_strings (JInt i) = []"
| "json_strings (JFloat r) = []"

fun json_values :: "json \<Rightarrow> string list" where
  "json_values (JStr s) = [s]"
| "json_values (JArr xs) = concat (map json_values xs)"
| "json_values (JObj kvs) = concat (map (\<lambda>kv. json_values (snd kv)) kvs)"
| "json_values JNull = []"
| "json_values (JBool b) = []"
| "json_values (JInt i) = []"
| "json_values (JFloat r) = []"

text \<open>
  A secret the redaction theorem speaks of: not empty, free of \<open><\<close>, \<open>>\<close> and the space,
  and not a part of the word \<open>redacted\<close>.
\<close>

definition plain_secret :: "string \<Rightarrow> bool" where
  "plain_secret s =
     (s \<noteq> [] \<and> CHR ''<'' \<notin> set s \<and> CHR ''>'' \<notin> set s \<and> CHR '' '' \<notin> set s
      \<and> \<not> sublist s ''redacted'')"

text \<open>A text holds a match of the Bearer pattern when one starts at some position.\<close>

definition has_bearer_match :: "string \<Rightarrow> bool" where
  "has_bearer_match s = (\<exists>i \<le> length s. bearer_match (drop i s) \<noteq> None)"

text \<open>
  What the redaction theorem says of the shape of the result, at every depth:
  \<open>redacted_as v w\<close> holds when \<open>w\<close> is \<open>v\<close> with strings in the place of strings, lists of the
  same length, dicts with the same keys in the same order whose entries under a
  sensitive key are the string \<open><redacted>\<close> (whatever the value was), and every other
  scalar as it was.
\<close>

fun redacted_as :: "json \<Rightarrow> json \<Rightarrow> bool" where
  "redacted_as (JStr s) w = (case w of JStr t \<Rightarrow> True | _ \<Rightarrow> False)"
| "redacted_as (JArr xs) w =
     (case w of JArr ys \<Rightarrow> list_all2 redacted_as xs ys | _ \<Rightarrow> False)"
| "redacted_as (JObj kvs) w =
     (case w of
        JObj kvs' \<Rightarrow>
          list_all2 (\<lambda>kv kv'. fst kv' = fst kv
                        \<and> (if sensitive_key (fst kv) then snd kv' = JStr REDACTED
                            else redacted_as (snd kv) (snd kv'))) kvs kvs'
      | _ \<Rightarrow> False)"
| "redacted_as JNull w = (w = JNull)"
| "redacted_as (JBool b) w = (w = JBool b)"
| "redacted_as (JInt i) w = (w = JInt i)"
| "redacted_as (JFloat r) w = (w = JFloat r)"

section \<open>Tool-dispatch loop (runner/run_smoke.py, main)\<close>

text \<open>
  \<open>parse_tool_json(text)\<close>: \<open>None\<close> when it raises. \<open>loads\<close> is \<open>json.loads\<close>, \<open>None\<close> when
  that raises.
\<close>

definition rfind_char :: "char \<Rightarrow> string \<Rightarrow> nat option" where
  "rfind_char c s =
     (case find_sub [c] (rev s) of None \<Rightarrow> None | Some i \<Rightarrow> Some (length s - 1 - i))"

definition parse_tool_json :: "(string \<Rightarrow> json option) \<Rightarrow> string \<Rightarrow> json option" where
  "parse_tool_json loads txt =
     (let t = py_strip txt
      in case loads t of
           Some v \<Rightarrow> Some v
         | None \<Rightarrow>
             (case (find_sub ''{'' t, rfind_char CHR ''}'' t) of
                (Some start, Some end) \<Rightarrow>
                  if end > start then loads (take (end + 1 - start) (drop start t)) else None
              | _ \<Rightarrow> None))"

text \<open>
  What the loop hands to \<open>evidence.append\<close>, by event type, and what it appends to
  \<open>messages\<close>; payloads the claims do not speak of (time stamps, raw responses, JSON-RPC
  records, state snapshots) are left out.
\<close>

datatype run_error =
    ChatFailed
  | NotParseableTooManyTimes
  | FinishEarlyTooManyTimes string
  | CallNotADict
  | InvalidToolCall
  | NoToolsDiscovered
  | ToolCallFailed
  | RegistryLoadFailed

datatype event =
    RunStart
  | OAuthAutosync
  | ProviderDoctor
  | LlmRequest nat
  | LlmResponse nat string
  | LlmParseError string
  | ToolRejected string string
  | ToolCall string
  | RegistryLoaded
  | RunFinal
  | RunError run_error

datatype message =
    SystemPrompt
  | UserPrompt
  | Assistant string
  | UserJsonOnly string
  | UserDoNotFinish string
  | UserIncorrectTool string
  | UserToolResult string
  | UserDiscoveredTools

definition expected :: "string list" where
  "expected =
     [''workbench.registry.scan'', ''workbench.workflow.upload'', ''workbench.workflow.status'',
      ''workbench.workflow.update'', ''workbench.workflow.status'']"

record loop_state =
  messages :: "message list"
  events :: "event list"
  expected_i :: nat
  bad_outputs :: nat
  tool_calls_seen :: "string list"
  tool_to_server_loaded :: bool
  current_workflow_id :: "string option"

text \<open>
  What the world answers in one iteration: the text of the model (\<open>None\<close> when
  \<open>provider.chat\<close> or \<open>extract_text\<close> raises), whether the tool's client is found and its
  JSON-RPC call returns, what \<open>load_registry_mapping\<close> leaves (\<open>None\<close> when it raises, else
  whether the mapping is non-empty), and the \<open>id\<close> of an upload's reply.
\<close>

record step_env =
  llm :: "string option"
  tool_ok :: bool
  registry_after :: "bool option"
  upload_id :: "string option"

datatype step_result = Continue loop_state | Break loop_state | Raise run_error loop_state

definition log_event :: "event \<Rightarrow> loop_state \<Rightarrow> loop_state" where
  "log_event e st = st\<lparr>events := events st @ [e]\<rparr>"

definition say :: "message list \<Rightarrow> loop_state \<Rightarrow> loop_state" where
  "say ms st = st\<lparr>messages := messages st @ ms\<rparr>"

text \<open>\<open>"final" in call\<close>: key membership, list membership, substring, or \<open>TypeError\<close>.\<close>

fun contains_final :: "json \<Rightarrow> bool option" where
  "contains_final (JObj kvs) = Some (''final'' \<in> fst ` set kvs)"
| "contains_final (JArr xs) = Some (JStr ''final'' \<in> set xs)"
| "contains_final (JStr s) = Some (sublist ''final'' s)"
| "contains_final v = None"

text \<open>\<open>expected[expected_i] if expected_i < len(expected) else "workbench.workflow.status"\<close>\<close>

definition next_required :: "loop_state \<Rightarrow> string" where
  "next_required st =
     (if expected_i st < length expected then expected ! expected_i st
      else ''workbench.workflow.status'')"

text \<open>The two strike paths: the counter goes up, and at 5 the loop raises.\<close>

definition strike :: "run_error \<Rightarrow> message list \<Rightarrow> loop_state \<Rightarrow> step_result" where
  "strike err steering st =
     (let st' = st\<lparr>bad_outputs := bad_outputs st + 1\<rparr>
      in if bad_outputs st' \<ge> 5 then Raise err st' else Continue (say steering st'))"

text \<open>A dispatched call: \<open>tool_calls_seen\<close>, \<open>expected_i\<close> and the \<open>tool.call\<close> event.\<close>

definition record_call :: "string \<Rightarrow> loop_state \<Rightarrow> loop_state" where
  "record_call tool st =
     log_event (ToolCall tool)
       (st\<lparr>tool_calls_seen := tool_calls_seen st @ [tool],
           expected_i := min (expected_i st + 1) (length expected)\<rparr>)"

definition dispatch_tool :: "step_env \<Rightarrow> string \<Rightarrow> string \<Rightarrow> loop_state \<Rightarrow> step_result" where
  "dispatch_tool env content tool st =
     (if expected_i st < length expected \<and> tool \<noteq> expected ! expected_i st then
        Continue (say [Assistant content, UserIncorrectTool (expected ! expected_i st)]
                   (log_event (ToolRejected tool (expected ! expected_i st)) st))
      else if tool = ''workbench.registry.scan'' then
        (if \<not> tool_ok env then Raise ToolCallFailed st
         else
           (let st1 = record_call tool st
            in case registry_after env of
                 None \<Rightarrow> Raise RegistryLoadFailed st1
               | Some nonempty \<Rightarrow>
                   Continue (say [Assistant content, UserToolResult tool, UserDiscoveredTools]
                              (log_event RegistryLoaded
                                (st1\<lparr>tool_to_server_loaded := nonempty\<rparr>)))))
      else if \<not> tool_to_server_loaded st then Raise NoToolsDiscovered st
      else if \<not> tool_ok env then Raise ToolCallFailed st
      else
        (let st1 = (if tool = ''workbench.workflow.upload'' \<and> upload_id env \<noteq> None
                    then st\<lparr>current_workflow_id := upload_id env\<rparr> else st)
         in Continue (say [Assistant content, UserToolResult tool] (record_call tool st1))))"

text \<open>One iteration of the \<open>for step in range(args.max_steps)\<close> loop.\<close>

definition dispatch_step ::
  "(string \<Rightarrow> json option) \<Rightarrow> string list \<Rightarrow> nat \<Rightarrow> step_env \<Rightarrow> loop_state \<Rightarrow> step_result" where
  "dispatch_step loads secrets step env st0 =
     (let st1 = log_event (LlmRequest step) st0
      in case llm env of
           None \<Rightarrow> Raise ChatFailed st1
         | Some content \<Rightarrow>
             (let content_redacted = redact_text content secrets;
                  st = log_event (LlmResponse step content_redacted) st1
              in case parse_tool_json loads content of
                   None \<Rightarrow>
                     strike NotParseableTooManyTimes
                       [Assistant content_redacted, UserJsonOnly (next_required st)]
                       (log_event (LlmParseError content_redacted) st)
                 | Some call \<Rightarrow>
                     (case contains_final call of
                        None \<Rightarrow> Raise CallNotADict st
                      | Some True \<Rightarrow>
                          if expected_i st < length expected then
                            strike (FinishEarlyTooManyTimes (expected ! expected_i st))
                              [Assistant content_redacted, UserDoNotFinish (expected ! expected_i st)]
                              st
                          else (case call of
                                  JObj kvs \<Rightarrow> Break (log_event RunFinal st)
                                | _ \<Rightarrow> Raise CallNotADict st)
                      | Some False \<Rightarrow>
                          (case call of
                             JObj kvs \<Rightarrow>
                               (case jget kvs ''tool'' of
                                  JStr tool \<Rightarrow>
                                    if tool = [] then Raise InvalidToolCall st
                                    else dispatch_tool env content tool st
                                | _ \<Rightarrow> Raise InvalidToolCall st)
                           | _ \<Rightarrow> Raise CallNotADict st))))"

text \<open>
  The loop with its \<open>except Exception\<close> handler, which appends \<open>run.error\<close>: the state when
  the loop is left, and the exception if one was raised. \<open>n\<close> counts the iterations that
  remain.
\<close>

fun run_steps ::
  "(string \<Rightarrow> json option) \<Rightarrow> string list \<Rightarrow> (nat \<Rightarrow> step_env) \<Rightarrow> nat \<Rightarrow> nat \<Rightarrow> loop_state
   \<Rightarrow> loop_state \<times> run_error option" where
  "run_steps loads secrets env step 0 st = (st, None)"
| "run_steps loads secrets env step (Suc n) st =
     (case dispatch_step loads secrets step (env step) st of
        Continue st' \<Rightarrow> run_steps loads secrets env (Suc step) n st'
      | Break st' \<Rightarrow> (st', None)
      | Raise e st' \<Rightarrow> (log_event (RunError e) st', Some e))"

text \<open>The state before the loop: the two prompts, and the events appended so far.\<close>

definition initial_state :: "bool \<Rightarrow> loop_state" where
  "initial_state autosync =
     \<lparr>messages = [SystemPrompt, UserPrompt],
      events = [RunStart] @ (if autosync then [OAuthAutosync] else []) @ [ProviderDoctor],
      expected_i = 0, bad_outputs = 0, tool_calls_seen = [], tool_to_server_loaded = False,
      current_workflow_id = None\<rparr>"

text \<open>
  The run from the loop on: the final state, the exception, and the exit code of \<open>main\<close>
  (1 when \<open>error\<close>, the message of the exception, is set, else 0; every exception of the
  model has a non-empty message).
\<close>

definition run_dispatch ::
  "(string \<Rightarrow> json option) \<Rightarrow> string list \<Rightarrow> (nat \<Rightarrow> step_env) \<Rightarrow> int \<Rightarrow> bool
   \<Rightarrow> loop_state \<times> run_error option \<times> int" where
  "run_dispatch loads secrets env max_steps autosync =
     (case run_steps loads secrets env 0 (nat max_steps) (initial_state autosync) of
        (st, err) \<Rightarrow> (st, err, if err \<noteq> None then 1 else 0))"

fun is_parse_error :: "event \<Rightarrow> bool" where
  "is_parse_error (LlmParseError c) = True"
| "is_parse_error e = False"

fun is_llm_request :: "event \<Rightarrow> bool" where
  "is_llm_request (LlmRequest n) = True"
| "is_llm_request e = False"

fun is_tool_rejected :: "event \<Rightarrow> bool" where
  "is_tool_rejected (ToolRejected t e) = True"
| "is_tool_rejected e = False"

subsection \<open>Stubbed models\<close>

text \<open>The model of scenario S6 answers \<open>not json\<close> at every step; no JSON parser accepts it.\<close>

definition env_not_json :: "nat \<Rightarrow> step_env" where
  "env_not_json step =
     \<lparr>llm = Some ''not json'', tool_ok = True, registry_after = Some True, upload_id = None\<rparr>"

definition loads_nothing :: "string \<Rightarrow> json option" where
  "loads_nothing s = None"

text \<open>
  A model that proposes \<open>workbench.workflow.upload\<close> at every step, while the next
  expected tool is \<open>workbench.registry.scan\<close>.
\<close>

definition upload_call_text :: string where
  \<open>upload_call_text = ''{"tool":"workbench.workflow.upload","arguments":{}}''\<close>

definition env_wrong_tool :: "nat \<Rightarrow> step_env" where
  "env_wrong_tool step =
     \<lparr>llm = Some upload_call_text, tool_ok = True, registry_after = Some True, upload_id = None\<rparr>"

definition loads_upload_call :: "string \<Rightarrow> json option" where
  "loads_upload_call s =
     (if s = upload_call_text
      then Some (JObj [(''tool'', JStr ''workbench.workflow.upload''), (''arguments'', JObj [])])
      else None)"

text \<open>The events of \<open>k\<close> failed attempts from step \<open>s0\<close> on.\<close>

fun parse_error_events :: "(nat \<Rightarrow> step_env) \<Rightarrow> string list \<Rightarrow> nat \<Rightarrow> nat \<Rightarrow> event list" where
  "parse_error_events env secrets s0 0 = []"
| "parse_error_events env secrets s0 (Suc k) =
     [LlmRequest s0, LlmResponse s0 (redact_text (the (llm (env s0))) secrets),
      LlmParseError (redact_text (the (llm (env s0))) secrets)]
     @ parse_error_events env secrets (Suc s0) k"

section \<open>Properties of the pool\<close>

lemmas pool_defs =
  empty_pool_def default_profile_def usable_at_def
  is_usable_def or_zero_def rank_key_def effective_email_def effective_remaining_def
  effective_reset_at_ms_def truthy_str_def strategy_of_def py_strip_def py_lower_def
  py_lower_char_def py_isspace_def sticky_choice_def round_robin_applies_def
  choose_profile_def rotate_after_def pool_wf_def

subsection \<open>Sorting\<close>

lemma sorted_hd_min: "sorted (map f ys) \<Longrightarrow> y \<in> set ys \<Longrightarrow> f (hd ys) \<le> f y"
  by (cases ys) auto

lemma sort_key_hd_in: "xs \<noteq> [] \<Longrightarrow> hd (sort_key f xs) \<in> set xs"
proof -
  assume "xs \<noteq> []"
  then have "sort_key f xs \<noteq> []" by (metis length_sort length_0_conv)
  then have "hd (sort_key f xs) \<in> set (sort_key f xs)" by (rule hd_in_set)
  then show ?thesis by (simp only: set_sort)
qed

lemma sort_key_hd_min: "y \<in> set xs \<Longrightarrow> f (hd (sort_key f xs)) \<le> f y"
  using sorted_hd_min [of f "sort_key f xs" y] by simp

lemma first_other_None: "first_other c ns = None \<longleftrightarrow> (\<forall>n\<in>set ns. n = c)"
  by (induction ns) auto

lemma first_other_sorted:
  "first_other c (map g xs) = Some r \<Longrightarrow> sorted (map f xs) \<Longrightarrow>
   r \<noteq> c \<and> (\<exists>q\<in>set xs. g q = r \<and> (\<forall>q'\<in>set xs. g q' \<noteq> c \<longrightarrow> f q \<le> f q'))"
proof (induction xs)
  case Nil
  then show ?case by simp
next
  case (Cons x xs)
  show ?case
  proof (cases "g x \<noteq> c")
    case True
    with Cons.prems have "r = g x" by simp
    moreover from Cons.prems(2) have "\<forall>q'\<in>set (x # xs). f x \<le> f q'" by auto
    ultimately show ?thesis using True by auto
  next
    case False
    with Cons.prems have "first_other c (map g xs) = Some r" "sorted (map f xs)" by auto
    from Cons.IH [OF this] False show ?thesis by auto
  qed
qed

lemma index_of_first:
  "x \<in> set xs \<Longrightarrow> index_of x xs < length xs \<and> xs ! index_of x xs = x
     \<and> (\<forall>j<index_of x xs. xs ! j \<noteq> x)"
proof (induction xs)
  case Nil
  then show ?case by simp
next
  case (Cons y ys)
  show ?case
  proof (cases "x = y")
    case True
    then show ?thesis by simp
  next
    case False
    with Cons.prems have "x \<in> set ys" by simp
    from Cons.IH [OF this] False show ?thesis by (auto simp: nth_Cons split: nat.splits)
  qed
qed

lemma pool_wf_profile_inj:
  assumes "pool_wf pool" "p \<in> set (map snd (profiles pool))" "q \<in> set (map snd (profiles pool))"
    "profile p = profile q"
  shows "p = q"
proof -
  from assms(2) obtain k where k: "(k, p) \<in> set (profiles pool)" by auto
  from assms(3) obtain l where l: "(l, q) \<in> set (profiles pool)" by auto
  from assms(1) k have "profile p = k" by (auto simp: pool_wf_def list_all_iff)
  moreover from assms(1) l have "profile q = l" by (auto simp: pool_wf_def list_all_iff)
  ultimately have "k = l" using assms(4) by simp
  moreover from assms(1) have "distinct (map fst (profiles pool))" by (simp add: pool_wf_def)
  ultimately show ?thesis using k l by (metis eq_key_imp_eq_value)
qed

subsection \<open>Scenario S1: the deterministic selection test\<close>

lemma scenario_s1_smallest_remaining: "choose_profile pool_s1 None 1000 = Inr ''p3''"
  by (simp add: pool_s1_def pool_defs)

lemma scenario_s1_email_tie_break: "choose_profile pool_s1_tie None 1000 = Inr ''p2''"
  by (simp add: pool_defs pool_s1_tie_def)

subsection \<open>Selection by the total order\<close>

text \<open>
  Claim C1, as the code has it. With no explicit profile, no pinned profile, no sticky
  shortcut and a usable profile, \<open>choose_profile\<close> sorts the usable profiles by
  (effective remaining, effective resetAtMs, effective email) and returns one of them.
  When the round-robin branch does not apply it is the first: the result is the \<open>profile\<close>
  field of the head \<open>b\<close> of the sorted usable list, \<open>b\<close> is usable and its key is least; in
  particular, of two usable profiles \<open>p\<close>, \<open>q\<close> with equal remaining and equal resetAtMs
  and \<open>effective_email p < effective_email q\<close>, \<open>q\<close> is not the one chosen. When the
  round-robin branch applies (the strategy is round-robin and \<open>lastUsedProfile\<close> names a
  usable profile), the result is the name that follows the first occurrence \<open>i\<close> of
  \<open>lastUsedProfile\<close> in the sorted list of names, wrapping around at the end.
\<close>

theorem choose_profile_total_order:
  assumes "\<not> truthy_str explicit" and "\<not> truthy_str (pinned_profile pool)"
    and "sticky_choice pool at_ms = None" and "usable_at pool at_ms \<noteq> []"
  shows "(\<not> round_robin_applies pool at_ms \<longrightarrow>
          (\<exists>b. choose_profile pool explicit at_ms = Inr (profile b)
           \<and> b = hd (sort_key rank_key (usable_at pool at_ms))
           \<and> b \<in> set (usable_at pool at_ms)
           \<and> (\<forall>q\<in>set (usable_at pool at_ms). rank_key b \<le> rank_key q)
           \<and> (\<forall>p\<in>set (usable_at pool at_ms). \<forall>q\<in>set (usable_at pool at_ms).
                 effective_remaining p = effective_remaining q
                 \<and> effective_reset_at_ms p = effective_reset_at_ms q
                 \<and> effective_email p < effective_email q
                 \<longrightarrow> b \<noteq> q
                     \<and> (pool_wf pool \<longrightarrow> choose_profile pool explicit at_ms \<noteq> Inr (profile q)))))
       \<and> (round_robin_applies pool at_ms \<longrightarrow>
          (\<exists>i<length (usable_at pool at_ms).
             map profile (sort_key rank_key (usable_at pool at_ms)) ! i = the (last_used_profile pool)
             \<and> (\<forall>j<i. map profile (sort_key rank_key (usable_at pool at_ms)) ! j
                         \<noteq> the (last_used_profile pool))
             \<and> choose_profile pool explicit at_ms
                 = Inr (map profile (sort_key rank_key (usable_at pool at_ms))
                          ! ((i + 1) mod length (usable_at pool at_ms)))))"
proof (intro conjI impI)
  let ?us = "usable_at pool at_ms"
  let ?b = "hd (sort_key rank_key ?us)"
  assume nrr: "\<not> round_robin_applies pool at_ms"
  have res: "choose_profile pool explicit at_ms = Inr (profile ?b)"
    using assms nrr by (simp add: choose_profile_def Let_def)
  have b_in: "?b \<in> set ?us" using assms(4) by (rule sort_key_hd_in)
  have b_min: "\<forall>q\<in>set ?us. rank_key ?b \<le> rank_key q" by (simp add: sort_key_hd_min)
  have tie: "?b \<noteq> q \<and> (pool_wf pool \<longrightarrow> choose_profile pool explicit at_ms \<noteq> Inr (profile q))"
    if p: "p \<in> set ?us" and q: "q \<in> set ?us"
      and eq: "effective_remaining p = effective_remaining q"
              "effective_reset_at_ms p = effective_reset_at_ms q"
      and lt: "effective_email p < effective_email q" for p q
  proof -
    have "rank_key p < rank_key q" using eq lt by (simp add: rank_key_def)
    moreover have "rank_key ?b \<le> rank_key p" using b_min p by blast
    ultimately have "rank_key ?b < rank_key q" by simp
    then have ne: "?b \<noteq> q" by auto
    have "profile ?b \<noteq> profile q" if wf: "pool_wf pool"
    proof
      assume "profile ?b = profile q"
      moreover have "?b \<in> set (map snd (profiles pool))" "q \<in> set (map snd (profiles pool))"
        using b_in q by (auto simp: usable_at_def)
      ultimately have "?b = q" using wf by (metis pool_wf_profile_inj)
      with ne show False by simp
    qed
    with ne res show ?thesis by simp
  qed
  from res b_in b_min tie
  show "\<exists>b. choose_profile pool explicit at_ms = Inr (profile b)
           \<and> b = hd (sort_key rank_key (usable_at pool at_ms))
           \<and> b \<in> set (usable_at pool at_ms)
           \<and> (\<forall>q\<in>set (usable_at pool at_ms). rank_key b \<le> rank_key q)
           \<and> (\<forall>p\<in>set (usable_at pool at_ms). \<forall>q\<in>set (usable_at pool at_ms).
                 effective_remaining p = effective_remaining q
                 \<and> effective_reset_at_ms p = effective_reset_at_ms q
                 \<and> effective_email p < effective_email q
                 \<longrightarrow> b \<noteq> q
                     \<and> (pool_wf pool \<longrightarrow> choose_profile pool explicit at_ms \<noteq> Inr (profile q)))"
    by blast
next
  let ?us = "usable_at pool at_ms"
  let ?names = "map profile (sort_key rank_key ?us)"
  let ?l = "the (last_used_profile pool)"
  assume rr: "round_robin_applies pool at_ms"
  then have mem: "?l \<in> set ?names" by (simp add: round_robin_applies_def)
  have len: "length ?names = length ?us" by simp
  have res: "choose_profile pool explicit at_ms
               = Inr (?names ! ((index_of ?l ?names + 1) mod length ?us))"
    using assms rr by (simp add: choose_profile_def Let_def)
  note ix = index_of_first [OF mem, unfolded len]
  from ix res
  show "\<exists>i<length ?us. ?names ! i = ?l \<and> (\<forall>j<i. ?names ! j \<noteq> ?l)
          \<and> choose_profile pool explicit at_ms = Inr (?names ! ((i + 1) mod length ?us))"
    by blast
qed

theorem choose_profile_total_order_witness:
  "choose_profile pool_s1 None 1000 = Inr ''p3''
   \<and> pool_wf pool_s1_tie \<and> choose_profile pool_s1_tie None 1000 = Inr ''p2''
   \<and> map profile (sort_key rank_key (usable_at (pool_cab ''a'') 0)) = [''a'', ''b'', ''c'']
   \<and> choose_profile (pool_cab ''a'') None 0 = Inr ''b''
   \<and> choose_profile (pool_cab ''b'') None 0 = Inr ''c''
   \<and> choose_profile (pool_cab ''c'') None 0 = Inr ''a''"
proof -
  have a: "\<not> truthy_str None" by (simp add: truthy_str_def)
  have "\<not> truthy_str (pinned_profile pool_s1)" "sticky_choice pool_s1 1000 = None"
    "usable_at pool_s1 1000 \<noteq> []"
    by (simp_all add: pool_s1_def pool_defs)
  from choose_profile_total_order [OF a this]
  have 1: "choose_profile pool_s1 None 1000 = Inr ''p3''" by (simp add: pool_s1_def pool_defs)
  have "\<not> truthy_str (pinned_profile pool_s1_tie)" "sticky_choice pool_s1_tie 1000 = None"
    "usable_at pool_s1_tie 1000 \<noteq> []"
    by (simp_all add: pool_defs pool_s1_tie_def)
  from choose_profile_total_order [OF a this]
  have 2: "choose_profile pool_s1_tie None 1000 = Inr ''p2''"
    by (simp add: pool_defs pool_s1_tie_def)
  have 3: "pool_wf pool_s1_tie" by (simp add: pool_defs pool_s1_tie_def)
  have rr: "\<not> truthy_str (pinned_profile (pool_cab l))" "sticky_choice (pool_cab l) 0 = None"
    "usable_at (pool_cab l) 0 \<noteq> []" for l
    by (simp_all add: pool_defs pool_cab_def)
  have 4: "map profile (sort_key rank_key (usable_at (pool_cab ''a'') 0)) = [''a'', ''b'', ''c'']"
    by (simp add: pool_defs pool_cab_def)
  from choose_profile_total_order [OF a rr, of "''a''"]
  have 5: "choose_profile (pool_cab ''a'') None 0 = Inr ''b''"
    by (simp add: pool_defs pool_cab_def)
  from choose_profile_total_order [OF a rr, of "''b''"]
  have 6: "choose_profile (pool_cab ''b'') None 0 = Inr ''c''"
    by (simp add: pool_defs pool_cab_def)
  from choose_profile_total_order [OF a rr, of "''c''"]
  have 7: "choose_profile (pool_cab ''c'') None 0 = Inr ''a''"
    by (simp add: pool_defs pool_cab_def)
  from 1 2 3 4 5 6 7 show ?thesis by simp
qed

text \<open>
  The claim as stated fails under round-robin: with \<open>a\<close> last used, the sorted usable list
  is \<open>a, b\<close> (equal remaining, equal resetAtMs, \<open>a < b\<close>), no explicit or pinned profile
  is set and the sticky shortcut does not apply, yet \<open>b\<close> is returned.
\<close>

theorem choose_profile_round_robin_counterexample:
  "\<not> truthy_str None \<and> \<not> truthy_str (pinned_profile pool_rr) \<and> sticky_choice pool_rr 0 = None
   \<and> map profile (sort_key rank_key (usable_at pool_rr 0)) = [''a'', ''b'']
   \<and> map effective_remaining (usable_at pool_rr 0) = [10 ^ 18, 10 ^ 18]
   \<and> map effective_reset_at_ms (usable_at pool_rr 0) = [10 ^ 18, 10 ^ 18]
   \<and> map effective_email (usable_at pool_rr 0) = [''a'', ''b'']
   \<and> ''a'' < ''b''
   \<and> choose_profile pool_rr None 0 = Inr ''b''"
  by (simp add: pool_rr_def pool_ab_def pool_defs)

subsection \<open>Rate-limit marking\<close>

lemma map_of_mark:
  "map_of ps name = Some p \<Longrightarrow>
   map_of (map (\<lambda>(k, q). if k = name then (k, g q) else (k, q)) ps) name = Some (g p)"
  by (induction ps) (auto split: if_splits)

text \<open>
  Claim C2, as the code has it. \<open>mark_rate_limited(p, u)\<close> stores \<open>max(u, now)\<close>: afterwards
  the profile is not usable at any \<open>T < u\<close>, and it is usable at \<open>T\<close> exactly when it is
  not disabled and \<open>T \<ge> max(u, now)\<close>.
\<close>

theorem mark_rate_limited_usable:
  assumes "map_of (profiles pool) name = Some p"
  shows "\<exists>p'. map_of (profiles (mark_rate_limited pool name u now iso_p iso_pool)) name = Some p'
           \<and> disabled p' = disabled p
           \<and> (\<forall>T. T < u \<longrightarrow> \<not> is_usable p' T)
           \<and> (\<forall>T. is_usable p' T \<longleftrightarrow> \<not> disabled p \<and> max u now \<le> T)"
proof -
  let ?g = "\<lambda>q. q\<lparr>rate_limited_until_ms := Some (max u now), updated_at := Some iso_p\<rparr>"
  have "map_of (profiles (mark_rate_limited pool name u now iso_p iso_pool)) name = Some (?g p)"
    using assms map_of_mark [OF assms, of ?g] by (simp add: mark_rate_limited_def)
  moreover have "disabled (?g p) = disabled p" by simp
  moreover have "\<forall>T. is_usable (?g p) T \<longleftrightarrow> \<not> disabled p \<and> max u now \<le> T"
    by (simp add: is_usable_def or_zero_def)
  moreover have "\<forall>T. T < u \<longrightarrow> \<not> is_usable (?g p) T"
    by (simp add: is_usable_def or_zero_def)
  ultimately show ?thesis by blast
qed

theorem mark_rate_limited_usable_witness:
  "\<exists>p'. map_of (profiles (mark_rate_limited pool_ab ''a'' 5000 1000 [] [])) ''a'' = Some p'
     \<and> \<not> is_usable p' 4999 \<and> is_usable p' 5000"
proof -
  have "map_of (profiles pool_ab) ''a'' = Some (default_profile ''a'' ''tokenA'' ''refreshA'' 86400000)"
    by (simp add: pool_ab_def pool_defs)
  from mark_rate_limited_usable [OF this, of 5000 1000 "[]" "[]"]
  show ?thesis by (auto simp: default_profile_def)
qed

text \<open>
  The claim as stated fails when \<open>u\<close> lies before the clock: marked until 5000 at clock
  10000, the profile is not disabled and \<open>7000 \<ge> 5000\<close>, yet it is not usable at 7000.
\<close>

theorem mark_rate_limited_clamp_counterexample:
  "map_of (profiles (mark_rate_limited pool_ab ''a'' 5000 10000 [] [])) ''a'' \<noteq> None
   \<and> \<not> disabled (the (map_of (profiles (mark_rate_limited pool_ab ''a'' 5000 10000 [] [])) ''a''))
   \<and> (5000 :: int) \<le> 7000
   \<and> \<not> is_usable (the (map_of (profiles (mark_rate_limited pool_ab ''a'' 5000 10000 [] [])) ''a'')) 7000"
  by (simp add: pool_ab_def pool_defs mark_rate_limited_def)

subsection \<open>Rotation\<close>

text \<open>
  Claim C3, as the code has it. With no explicit argument, \<open>rotate_after(current)\<close> raises
  when no profile is usable; when some profile is usable it returns the name of a usable
  profile other than \<open>current\<close> whose key is least among those, and \<open>current\<close> when every
  usable profile is \<open>current\<close>.
\<close>

theorem rotate_after_best_other:
  assumes "\<not> truthy_str explicit"
  shows "(usable_at pool now = [] \<longrightarrow>
            rotate_after pool now current explicit = Inl NoUsableToRotate)
       \<and> (usable_at pool now \<noteq> [] \<and> (\<forall>q\<in>set (usable_at pool now). profile q = current) \<longrightarrow>
            rotate_after pool now current explicit = Inr current)
       \<and> (usable_at pool now \<noteq> [] \<and> (\<exists>q\<in>set (usable_at pool now). profile q \<noteq> current) \<longrightarrow>
            (\<exists>r q. rotate_after pool now current explicit = Inr r \<and> r \<noteq> current \<and>
               q \<in> set (usable_at pool now) \<and> profile q = r \<and>
               (\<forall>q'\<in>set (usable_at pool now). profile q' \<noteq> current \<longrightarrow> rank_key q \<le> rank_key q')))"
proof -
  let ?us = "usable_at pool now"
  let ?ranked = "sort_key rank_key ?us"
  have none: "rotate_after pool now current explicit = Inl NoUsableToRotate" if "?us = []"
    using assms that by (simp add: rotate_after_def)
  have same: "rotate_after pool now current explicit = Inr current"
    if ne: "?us \<noteq> []" and all: "\<forall>q\<in>set ?us. profile q = current"
  proof -
    have "first_other current (map profile ?ranked) = None"
      using all by (simp add: first_other_None)
    moreover have "current \<in> set (map profile ?ranked)"
    proof -
      from ne obtain q where "q \<in> set ?us" by (cases ?us) auto
      with all have "q \<in> set ?ranked" "profile q = current" by simp_all
      then show ?thesis by force
    qed
    ultimately show ?thesis using assms ne by (simp add: rotate_after_def Let_def)
  qed
  have other: "\<exists>r q. rotate_after pool now current explicit = Inr r \<and> r \<noteq> current \<and>
             q \<in> set ?us \<and> profile q = r \<and>
             (\<forall>q'\<in>set ?us. profile q' \<noteq> current \<longrightarrow> rank_key q \<le> rank_key q')"
    if ne: "?us \<noteq> []" and ex: "\<exists>q\<in>set ?us. profile q \<noteq> current"
  proof (cases "current \<in> set (map profile ?ranked)")
    case False
    then have res: "rotate_after pool now current explicit = Inr (hd (map profile ?ranked))"
      using assms ne by (simp add: rotate_after_def Let_def)
    have rne: "?ranked \<noteq> []" using ne by (metis length_sort length_0_conv)
    have hd_eq: "hd (map profile ?ranked) = profile (hd ?ranked)"
      using rne by (simp add: hd_map)
    have "hd ?ranked \<in> set ?us" using ne by (rule sort_key_hd_in)
    moreover have "profile (hd ?ranked) \<noteq> current"
      using False rne by (metis hd_eq hd_in_set list.map_disc_iff)
    moreover have "\<forall>q'\<in>set ?us. rank_key (hd ?ranked) \<le> rank_key q'"
      by (simp add: sort_key_hd_min)
    ultimately show ?thesis using res hd_eq by auto
  next
    case True
    from ex have "first_other current (map profile ?ranked) \<noteq> None"
      by (simp add: first_other_None)
    then obtain r where r: "first_other current (map profile ?ranked) = Some r" by blast
    have res: "rotate_after pool now current explicit = Inr r"
      using assms ne True r by (simp add: rotate_after_def Let_def)
    from first_other_sorted [OF r, of rank_key] res show ?thesis by auto
  qed
  from none same other show ?thesis by blast
qed

theorem rotate_after_best_other_witness:
  "rotate_after pool_s1 1000 ''p3'' None = Inr ''p2''
   \<and> rotate_after pool_limited 5000 ''a'' None = Inr ''a''
   \<and> rotate_after pool_limited 4999 ''a'' None = Inl NoUsableToRotate"
proof -
  have a: "\<not> truthy_str None" by (simp add: truthy_str_def)
  have "rotate_after pool_s1 1000 ''p3'' None = Inr ''p2''"
    using rotate_after_best_other [OF a, of pool_s1 1000 "''p3''"]
    by (simp add: pool_s1_def pool_defs)
  moreover have "rotate_after pool_limited 5000 ''a'' None = Inr ''a''"
    using rotate_after_best_other [OF a, of pool_limited 5000 "''a''"]
    by (simp add: pool_limited_def pool_defs)
  moreover have "rotate_after pool_limited 4999 ''a'' None = Inl NoUsableToRotate"
    using rotate_after_best_other [OF a, of pool_limited 4999 "''a''"]
    by (simp add: pool_limited_def pool_defs)
  ultimately show ?thesis by simp
qed

text \<open>
  The claim as stated fails when the only profile is the rate-limited \<open>current\<close>: no
  alternative exists, and \<open>rotate_after\<close> raises instead of returning \<open>current\<close>.
\<close>

theorem rotate_after_no_usable_counterexample:
  "map fst (profiles pool_limited) = [''a'']
   \<and> rotate_after pool_limited 1000 ''a'' None = Inl NoUsableToRotate
   \<and> rotate_after pool_limited 1000 ''a'' None \<noteq> Inr ''a''"
  by (simp add: pool_limited_def pool_defs)

text \<open>
  Claim C10. With a non-empty \<open>explicit\<close> argument \<open>rotate_after\<close> returns it whatever the
  pool holds; for a name that is not in the pool, \<open>choose_profile\<close> raises, and the
  provider's lookup of the rotated name is what raises after \<open>rotate_after\<close>.
\<close>

theorem rotate_after_explicit_unchecked:
  assumes "e \<noteq> []"
  shows "rotate_after pool now current (Some e) = Inr e
       \<and> (map_of (profiles pool) e = None \<longrightarrow>
            choose_profile pool (Some e) at_ms = Inl (ProfileNotFound e)
            \<and> chat_lookup pool e = Inl (SelectedProfileMissing e))"
  using assms by (simp add: rotate_after_def choose_profile_def chat_lookup_def truthy_str_def)

theorem rotate_after_explicit_unchecked_witness:
  "rotate_after pool_ab 0 ''a'' (Some ''ghost'') = Inr ''ghost''
   \<and> choose_profile pool_ab (Some ''ghost'') 0 = Inl (ProfileNotFound ''ghost'')
   \<and> chat_lookup pool_ab ''ghost'' = Inl (SelectedProfileMissing ''ghost'')"
proof -
  have "''ghost'' \<noteq> []" by simp
  from rotate_after_explicit_unchecked [OF this, of pool_ab 0 "''a''" 0]
  show ?thesis by (simp add: pool_ab_def pool_defs)
qed

section \<open>Properties of the evidence log\<close>

lemma st_size_append [simp]: "st_size (f @ g) = st_size f + st_size g"
  by (simp add: st_size_def)

lemma st_size_Nil [simp]: "st_size [] = 0"
  by (simp add: st_size_def)

lemma st_size_single [simp]: "st_size [x] = int (length (written_bytes x))"
  by (simp add: st_size_def)

lemma st_size_event_lines [simp]: "st_size (event_lines es) = lines_size es"
  by (induction es) (auto simp: event_lines_def lines_size_def st_size_def)

lemma lines_size_append [simp]: "lines_size (a @ b) = lines_size a + lines_size b"
  by (simp add: lines_size_def)

lemma lines_size_nonneg: "0 \<le> lines_size es"
  by (induction es) (auto simp: lines_size_def)

lemma append_all_disabled:
  "writer_disabled w \<Longrightarrow> append_all w f es = (w, f)"
  by (induction es arbitrary: f) (auto simp: evidence_append_def)

lemma append_all_append:
  "append_all w f (a @ b) = (case append_all w f a of (w', f') \<Rightarrow> append_all w' f' b)"
  by (induction a arbitrary: w f) (auto split: prod.splits)

lemma append_all_fits:
  "\<not> writer_disabled w \<Longrightarrow> st_size f + lines_size es \<le> max_bytes w \<Longrightarrow>
   append_all w f es = (w, f @ event_lines es)"
proof (induction es arbitrary: f)
  case Nil
  then show ?case by (simp add: event_lines_def)
next
  case (Cons e es)
  obtain body truncated where e: "e = (body, truncated)" by (cases e)
  have nn: "0 \<le> lines_size es" by (rule lines_size_nonneg)
  have sz: "lines_size (e # es) = int (length body) + 1 + lines_size es"
    by (simp add: lines_size_def e)
  have step: "evidence_append w f body truncated = (w, f @ [EventLine (body @ [CHR 0x0A])])"
    using Cons.prems nn sz by (simp add: evidence_append_def Let_def)
  have "append_all w (f @ [EventLine (body @ [CHR 0x0A])]) es
          = (w, (f @ [EventLine (body @ [CHR 0x0A])]) @ event_lines es)"
    using Cons.prems sz by (intro Cons.IH) simp_all
  then show ?case by (simp add: e step event_lines_def)
qed

lemma append_all_unlimited:
  "\<not> writer_disabled w \<Longrightarrow> max_bytes w \<le> 0 \<Longrightarrow> append_all w f es = (w, f @ event_lines es)"
proof (induction es arbitrary: f)
  case Nil
  then show ?case by (simp add: event_lines_def)
next
  case (Cons e es)
  obtain body truncated where e: "e = (body, truncated)" by (cases e)
  have step: "evidence_append w f body truncated = (w, f @ [EventLine (body @ [CHR 0x0A])])"
    using Cons.prems by (simp add: evidence_append_def Let_def)
  from Cons.IH [OF Cons.prems, of "f @ [EventLine (body @ [CHR 0x0A])]"]
  show ?case by (simp add: e step event_lines_def)
qed

lemma append_all_overflow:
  assumes "0 < b" and "lines_size pre \<le> b" and "lines_size pre + int (length body) + 1 > b"
  shows "append_all (new_writer b) [] (pre @ (body, truncated) # post)
         = ((new_writer b)\<lparr>writer_disabled := True\<rparr>,
            event_lines pre @
              (if lines_size pre + int (length truncated) + 1 \<le> b
               then [TruncatedLine (truncated @ [CHR 0x0A])] else []))"
proof -
  have pre: "append_all (new_writer b) [] pre = (new_writer b, event_lines pre)"
    using append_all_fits [of "new_writer b" "[]" pre] assms(2) by (simp add: new_writer_def)
  have step: "evidence_append (new_writer b) (event_lines pre) body truncated
         = ((new_writer b)\<lparr>writer_disabled := True\<rparr>,
            event_lines pre @
              (if lines_size pre + int (length truncated) + 1 \<le> b
               then [TruncatedLine (truncated @ [CHR 0x0A])] else []))"
    using assms by (simp add: evidence_append_def new_writer_def Let_def)
  show ?thesis
    by (simp add: append_all_append pre step append_all_disabled)
qed

text \<open>A sequence that does not fit splits at its first overflowing event.\<close>

lemma split_first_overflow:
  assumes "\<not> lines_size es \<le> b" and "0 \<le> b"
  shows "\<exists>pre body truncated post. es = pre @ (body, truncated) # post
           \<and> lines_size pre \<le> b \<and> lines_size pre + int (length body) + 1 > b"
  using assms
proof (induction es rule: rev_induct)
  case Nil
  then show ?case by (simp add: lines_size_def)
next
  case (snoc e es)
  obtain body truncated where e: "e = (body, truncated)" by (cases e)
  show ?case
  proof (cases "lines_size es \<le> b")
    case True
    moreover have "lines_size es + int (length body) + 1 > b"
      using snoc.prems(1) by (simp add: e lines_size_def)
    ultimately show ?thesis using e by blast
  next
    case False
    from snoc.IH [OF False snoc.prems(2)] obtain pre body' truncated' post
      where "es = pre @ (body', truncated') # post" "lines_size pre \<le> b"
        "lines_size pre + int (length body') + 1 > b" by blast
    then have "es @ [e] = pre @ (body', truncated') # (post @ [e])" by simp
    then show ?thesis
      using \<open>lines_size pre \<le> b\<close> \<open>lines_size pre + int (length body') + 1 > b\<close> by blast
  qed
qed

text \<open>
  Claim C7. For a positive budget \<open>b\<close> and any sequence of appends to a fresh file: the
  file never exceeds \<open>b\<close> bytes and holds at most one \<open>evidence.truncated\<close> line; a
  sequence that fits is written whole; at the first event whose line would exceed \<open>b\<close>
  the writer latches disabled, the file keeps the lines before it plus the truncation
  line when that fits, and nothing after it is written (a disabled writer drops every
  append).
\<close>

theorem evidence_budget:
  assumes "0 < b"
  shows "st_size (snd (append_all (new_writer b) [] es)) \<le> b
       \<and> length (filter is_truncated_line (snd (append_all (new_writer b) [] es))) \<le> 1
       \<and> (lines_size es \<le> b \<longrightarrow>
            append_all (new_writer b) [] es = (new_writer b, event_lines es))
       \<and> (\<forall>pre body truncated post.
            es = pre @ (body, truncated) # post \<and> lines_size pre \<le> b
            \<and> lines_size pre + int (length body) + 1 > b \<longrightarrow>
            append_all (new_writer b) [] es
              = ((new_writer b)\<lparr>writer_disabled := True\<rparr>,
                 event_lines pre @
                   (if lines_size pre + int (length truncated) + 1 \<le> b
                    then [TruncatedLine (truncated @ [CHR 0x0A])] else [])))
       \<and> (\<forall>w f. writer_disabled w \<longrightarrow> append_all w f es = (w, f))"
proof -
  have no_trunc: "filter is_truncated_line (event_lines xs) = []" for xs
    by (induction xs) (auto simp: event_lines_def)
  have fits: "append_all (new_writer b) [] es = (new_writer b, event_lines es)"
    if "lines_size es \<le> b"
    using append_all_fits [of "new_writer b" "[]" es] that by (simp add: new_writer_def)
  have over: "append_all (new_writer b) [] es
              = ((new_writer b)\<lparr>writer_disabled := True\<rparr>,
                 event_lines pre @
                   (if lines_size pre + int (length truncated) + 1 \<le> b
                    then [TruncatedLine (truncated @ [CHR 0x0A])] else []))"
    if "es = pre @ (body, truncated) # post" "lines_size pre \<le> b"
       "lines_size pre + int (length body) + 1 > b" for pre body truncated post
    using append_all_overflow [OF assms that(2,3)] that(1) by simp
  have size_count: "st_size (snd (append_all (new_writer b) [] es)) \<le> b
       \<and> length (filter is_truncated_line (snd (append_all (new_writer b) [] es))) \<le> 1"
  proof (cases "lines_size es \<le> b")
    case True
    with fits show ?thesis by (simp add: no_trunc)
  next
    case False
    from split_first_overflow [OF False] assms obtain pre body truncated post
      where sp: "es = pre @ (body, truncated) # post" "lines_size pre \<le> b"
        "lines_size pre + int (length body) + 1 > b" by auto
    from over [OF sp] sp(2) show ?thesis by (simp add: no_trunc)
  qed
  from size_count fits over append_all_disabled show ?thesis by blast
qed

theorem evidence_budget_witness:
  "append_all (new_writer 12) []
     [(''abcd'', ''tr''), (''efghijkl'', ''tr''), (''x'', ''tr'')]
   = (\<lparr>max_bytes = 12, writer_disabled = True\<rparr>,
      [EventLine (''abcd'' @ [CHR 0x0A]), TruncatedLine (''tr'' @ [CHR 0x0A])])
   \<and> st_size (snd (append_all (new_writer 12) []
        [(''abcd'', ''tr''), (''efghijkl'', ''tr''), (''x'', ''tr'')])) \<le> 12"
proof -
  have "(0::int) < 12" by simp
  from evidence_budget [OF this, of "[(''abcd'', ''tr''), (''efghijkl'', ''tr''), (''x'', ''tr'')]"]
  show ?thesis
    by (simp add: new_writer_def evidence_append_def st_size_def)
qed

section \<open>Properties of the framing\<close>

subsection \<open>Decimal digits\<close>

lemma less_10_cases: "k < 10 \<Longrightarrow> k \<in> {0, 1, 2, 3, 4, 5, 6, 7, 8, 9 :: nat}"
  by auto

lemma digit_val_digit_char: "k < 10 \<Longrightarrow> digit_val (digit_char k) = k"
  by (drule less_10_cases) (auto simp: digit_val_def digit_char_def)

lemma is_digit_digit_char: "k < 10 \<Longrightarrow> is_digit (digit_char k)"
proof -
  assume "k < 10"
  then have "k \<in> {0, 1, 2, 3, 4, 5, 6, 7, 8, 9}" by (rule less_10_cases)
  then show ?thesis
    by (auto simp: is_digit_def digit_char_def less_eq_char_def)
qed

lemma show_nat_digits: "c \<in> set (show_nat n) \<Longrightarrow> is_digit c"
proof (induction n arbitrary: c rule: show_nat.induct)
  case (1 n)
  show ?case
  proof (cases "n < 10")
    case True
    with "1.prems" show ?thesis by (simp add: show_nat.simps [of n] is_digit_digit_char)
  next
    case False
    with "1.prems" have "c \<in> set (show_nat (n div 10)) \<or> c = digit_char (n mod 10)"
      by (auto simp add: show_nat.simps [of n])
    with "1.IH" False show ?thesis by (auto simp: is_digit_digit_char)
  qed
qed

lemma show_nat_nonempty: "show_nat n \<noteq> []"
  by (simp add: show_nat.simps [of n])

lemma digits_value_snoc: "digits_value (ds @ [c]) = 10 * digits_value ds + digit_val c"
  by (simp add: digits_value_def)

lemma digits_value_show_nat: "digits_value (show_nat n) = n"
proof (induction n rule: show_nat.induct)
  case (1 n)
  show ?case
  proof (cases "n < 10")
    case True
    then show ?thesis
      by (simp add: show_nat.simps [of n] digits_value_def digit_val_digit_char)
  next
    case False
    then have "digits_value (show_nat n)
        = 10 * digits_value (show_nat (n div 10)) + digit_val (digit_char (n mod 10))"
      by (simp add: show_nat.simps [of n] digits_value_snoc)
    also have "\<dots> = 10 * (n div 10) + n mod 10"
      using "1.IH" False by (simp add: digit_val_digit_char)
    finally show ?thesis by simp
  qed
qed

lemma int_digits_all_digits:
  "ds \<noteq> [] \<Longrightarrow> \<forall>c\<in>set ds. is_digit c \<Longrightarrow> int_digits ds = Some ds"
proof (induction ds rule: int_digits.induct)
  case 1
  then show ?case by simp
next
  case (2 c)
  then show ?case by simp
next
  case (3 c d r)
  from "3.prems" have "is_digit d" by simp
  then have "d \<noteq> CHR ''_''" by (auto simp: is_digit_def less_eq_char_def)
  with 3 show ?case by simp
qed

lemma digit_not_space: "is_digit c \<Longrightarrow> \<not> py_isspace c"
  by (auto simp: is_digit_def py_isspace_def less_eq_char_def)

lemma py_strip_space_digits: "py_strip (CHR '' '' # show_nat n) = show_nat n"
proof -
  let ?ds = "show_nat n"
  have nsp: "\<forall>c\<in>set ?ds. \<not> py_isspace c" using show_nat_digits digit_not_space by blast
  have ne: "?ds \<noteq> []" by (rule show_nat_nonempty)
  have "dropWhile py_isspace (CHR '' '' # ?ds) = ?ds"
    using nsp ne by (cases ?ds) (auto simp: py_isspace_def)
  moreover have "dropWhile py_isspace (rev ?ds) = rev ?ds"
    using nsp ne by (cases "rev ?ds") auto
  ultimately show ?thesis by (simp add: py_strip_def)
qed

lemma digit_not_int_space: "is_digit c \<Longrightarrow> \<not> int_isspace c"
  by (auto simp: is_digit_def int_isspace_def less_eq_char_def)

lemma py_int_str_show_nat: "py_int_str (show_nat n) = Some (int n)"
proof -
  let ?ds = "show_nat n"
  have dig: "\<forall>c\<in>set ?ds. is_digit c" by (simp add: show_nat_digits)
  have ne: "?ds \<noteq> []" by (rule show_nat_nonempty)
  have nsp: "\<forall>c\<in>set ?ds. \<not> int_isspace c" using dig digit_not_int_space by blast
  have "dropWhile int_isspace ?ds = ?ds" using nsp by (cases ?ds) auto
  moreover have "dropWhile int_isspace (rev ?ds) = rev ?ds" using nsp by (cases "rev ?ds") auto
  ultimately have strip: "rev (dropWhile int_isspace (rev (dropWhile int_isspace ?ds))) = ?ds"
    by simp
  obtain c r where cr: "?ds = c # r" using ne by (cases ?ds) auto
  then have "is_digit c" using dig by simp
  then have c: "c \<noteq> CHR ''-''" "c \<noteq> CHR ''+''" by (auto simp: is_digit_def less_eq_char_def)
  have "int_digits ?ds = Some ?ds" using int_digits_all_digits [OF ne dig] .
  then have "py_int_str ?ds = Some (int (digits_value ?ds))"
    unfolding py_int_str_def strip using c by (simp add: cr)
  then show ?thesis by (simp add: digits_value_show_nat)
qed

subsection \<open>Finding the separator\<close>

lemma find_sub_absent: "sub \<noteq> [] \<Longrightarrow> hd sub \<notin> set a \<Longrightarrow> find_sub sub a = None"
  by (induction a) (auto simp: prefix_def neq_Nil_conv)

lemma find_sub_after:
  "sub \<noteq> [] \<Longrightarrow> hd sub \<notin> set a \<Longrightarrow> find_sub sub (a @ sub @ b) = Some (length a)"
proof (induction a)
  case Nil
  then show ?case by (cases sub) auto
next
  case (Cons c a)
  then have "\<not> prefix sub (c # a @ sub @ b)" by (auto simp: prefix_def neq_Nil_conv)
  with Cons show ?case by simp
qed

lemma py_split_absent: "sep \<noteq> [] \<Longrightarrow> find_sub sep s = None \<Longrightarrow> py_split sep s = [s]"
  by (simp add: py_split.simps [of sep s])

lemma header_no_cr: "CHR 0x0D \<notin> set (''Content-Length: '' @ show_nat n)"
proof -
  have "CHR 0x0D \<notin> set (show_nat n)"
    using show_nat_digits [of "CHR 0x0D" n] by (auto simp: is_digit_def less_eq_char_def)
  then show ?thesis by simp
qed

lemma split_colon_header:
  "split_colon (''Content-Length: '' @ ds) = Some (''Content-Length'', CHR '' '' # ds)"
  by (simp add: split_colon_def)

lemma header_key: "py_lower (py_strip ''Content-Length'') = ''content-length''"
  by code_simp

lemma scan_headers_header:
  "scan_headers [''Content-Length: '' @ show_nat n] = Some (int n)"
  by (simp only: scan_headers.simps split_colon_header option.case prod.case header_key
        refl if_True py_strip_space_digits py_int_str_show_nat)

lemma slice_body:
  "py_slice (h @ sep @ body) (int (length h) + int (length sep))
     (int (length h) + int (length sep) + int (length body)) = body"
  by (simp add: py_slice_def slice_index_def)

lemma slice_rest:
  "py_slice_from (h @ sep @ body) (int (length h) + int (length sep) + int (length body)) = []"
  by (simp add: py_slice_from_def slice_index_def)

text \<open>
  Claim C9. For a JSON object \<open>V\<close> on which the JSON library round-trips
  (\<open>loads (dumps V) = V\<close>), the frame parser applied to \<open>encode_message(V)\<close> returns \<open>V\<close>
  and an empty rest; the frame is the header \<open>Content-Length: N\<close>, the separator and
  the body, where \<open>N\<close> is the decimal rendering of the body's length in bytes and reads
  back as that length.
\<close>

theorem framing_round_trip:
  assumes "loads (dumps (JObj kvs)) = Some (JObj kvs)"
  shows "try_parse_one loads (encode_message dumps (JObj kvs)) = Inr (Some (JObj kvs), [])
       \<and> encode_message dumps (JObj kvs)
           = ''Content-Length: '' @ show_nat (length (dumps (JObj kvs))) @ HEADER_SEPARATOR
               @ dumps (JObj kvs)
       \<and> py_int_str (show_nat (length (dumps (JObj kvs)))) = Some (int (length (dumps (JObj kvs))))"
proof -
  let ?body = "dumps (JObj kvs)"
  let ?h = "''Content-Length: '' @ show_nat (length ?body)"
  let ?buf = "?h @ HEADER_SEPARATOR @ ?body"
  have enc: "encode_message dumps (JObj kvs) = ?buf"
    by (simp add: encode_message_def Let_def)
  have sep: "HEADER_SEPARATOR \<noteq> []" "hd HEADER_SEPARATOR = CHR 0x0D"
    by (simp_all add: HEADER_SEPARATOR_def)
  have found: "find_sub HEADER_SEPARATOR ?buf = Some (length ?h)"
    using find_sub_after [of HEADER_SEPARATOR ?h ?body] sep header_no_cr by simp
  have take_h: "take (length ?h) ?buf = ?h" by simp
  have "find_sub [CHR 0x0D, CHR 0x0A] ?h = None"
    using find_sub_absent [of "[CHR 0x0D, CHR 0x0A]" ?h] header_no_cr by simp
  then have lines: "py_split [CHR 0x0D, CHR 0x0A] ?h = [?h]"
    by (intro py_split_absent) simp_all
  have cl: "scan_headers [?h] = Some (int (length ?body))" by (rule scan_headers_header)
  have len: "int (length ?buf) = int (length ?h) + int (length HEADER_SEPARATOR) + int (length ?body)"
    by simp
  have parse: "try_parse_one loads ?buf = Inr (Some (JObj kvs), [])"
    unfolding try_parse_one_def found option.case take_h lines cl Let_def
    using assms by (simp only: slice_body slice_rest len) simp
  from parse enc py_int_str_show_nat show ?thesis by simp
qed

theorem framing_round_trip_witness:
  "try_parse_one stub_loads (encode_message stub_dumps (JObj [])) = Inr (Some (JObj []), [])
   \<and> encode_message stub_dumps (JObj []) = ''Content-Length: 2'' @ HEADER_SEPARATOR @ ''{}''"
proof -
  have "stub_loads (stub_dumps (JObj [])) = Some (JObj [])"
    by (simp add: stub_loads_def stub_dumps_def)
  from framing_round_trip [where loads = stub_loads and dumps = stub_dumps and kvs = "[]", OF this]
  have 1: "try_parse_one stub_loads (encode_message stub_dumps (JObj [])) = Inr (Some (JObj []), [])"
    by (rule conjunct1)
  have 2: "encode_message stub_dumps (JObj []) = ''Content-Length: 2'' @ HEADER_SEPARATOR @ ''{}''"
    by (simp add: encode_message_def stub_dumps_def show_nat.simps digit_char_def)
  show ?thesis by (rule conjI [OF 1 2])
qed

section \<open>Properties of loading\<close>

lemma pool_from_json_version:
  assumes "map_of obj ''version'' = Some (JInt v)" and "v \<noteq> 0"
  shows "pool_from_json env obj =
           (case load_profiles env (dict_or_empty (jget obj ''profiles'')) [] of
              Inl e \<Rightarrow> Inl e
            | Inr loaded \<Rightarrow>
                Inr \<lparr>version = v,
                     pool_provider =
                       py_str env (py_or (jget obj ''provider'') (JStr ''openai.codex.oauth.pool'')),
                     pool_updated_at =
                       py_str env (py_or (jget obj ''updatedAt'') (JStr (now_iso env))),
                     selection_strategy =
                       py_str env (py_or (jget (dict_or_empty (jget obj ''selection'')) ''strategy'')
                                    (JStr ''sticky'')),
                     pinned_profile =
                       str_or_none (jget (dict_or_empty (jget obj ''selection'')) ''pinnedProfile''),
                     last_used_profile =
                       str_or_none (jget (dict_or_empty (jget obj ''selection'')) ''lastUsedProfile''),
                     profiles = loaded,
                     pool_issuer = str_or_none (jget obj ''issuer''),
                     pool_client_id = str_or_none (jget obj ''clientId''),
                     model = str_or_none (jget obj ''model''),
                     codex_endpoint = str_or_none (jget obj ''codexEndpoint'')\<rparr>)"
proof -
  have "py_int (py_or (jget obj ''version'') (JInt 1)) = Inr v"
    using assms by (simp add: jget_def py_or_def)
  then show ?thesis by (simp add: pool_from_json_def Let_def split: sum.splits)
qed

text \<open>
  \<open>load_pool\<close> does not look at the version: for a pool file whose \<open>version\<close> is a
  non-zero integer \<open>v\<close> it fails only when a profile entry fails to convert, and the pool
  it returns carries \<open>version = v\<close>. Of its callers, \<open>upsert_profile\<close> refuses such a pool
  when \<open>v \<noteq> 1\<close>.
\<close>

lemma load_pool_keeps_version:
  assumes "loads raw = Some (JObj kvs)" and "map_of kvs ''version'' = Some (JInt v)"
    and "v \<noteq> 0"
  shows "(isl (load_pool env loads (Some raw))
            \<longleftrightarrow> isl (load_profiles env (dict_or_empty (jget kvs ''profiles'')) []))
       \<and> (\<forall>pool. load_pool env loads (Some raw) = Inr pool \<longrightarrow> version pool = v)
       \<and> (v \<noteq> 1 \<longrightarrow> isl (upsert_profile env loads (Some raw) p pool_fields))
       \<and> (v \<noteq> 1 \<and> \<not> isl (load_pool env loads (Some raw)) \<longrightarrow>
            upsert_profile env loads (Some raw) p pool_fields = Inl UnsupportedPoolVersion)"
proof -
  have lp: "load_pool env loads (Some raw) = pool_from_json env kvs"
    using assms(1) by (simp add: load_pool_def)
  note pj = pool_from_json_version [OF assms(2,3), of env]
  have a: "isl (load_pool env loads (Some raw))
            \<longleftrightarrow> isl (load_profiles env (dict_or_empty (jget kvs ''profiles'')) [])"
    unfolding lp pj by (simp split: sum.splits)
  have b: "version pool = v" if "load_pool env loads (Some raw) = Inr pool" for pool
    using that unfolding lp pj by (auto split: sum.splits)
  have c: "isl (upsert_profile env loads (Some raw) p pool_fields)" if "v \<noteq> 1"
  proof (cases "load_pool env loads (Some raw)")
    case (Inl e)
    then show ?thesis by (simp add: upsert_profile_def)
  next
    case (Inr pool)
    with b that have "version pool \<noteq> 1" by simp
    with Inr show ?thesis by (simp add: upsert_profile_def)
  qed
  have d: "upsert_profile env loads (Some raw) p pool_fields = Inl UnsupportedPoolVersion"
    if "v \<noteq> 1" "\<not> isl (load_pool env loads (Some raw))"
  proof -
    from that(2) obtain pool where pool: "load_pool env loads (Some raw) = Inr pool"
      by (cases "load_pool env loads (Some raw)") auto
    with b that(1) have "version pool \<noteq> 1" by simp
    with pool show ?thesis by (simp add: upsert_profile_def)
  qed
  from a b c d show ?thesis by blast
qed

text \<open>
  Claim C4 at a pool file with \<open>"version": 2\<close> and at one with \<open>"version": 0\<close>. \<open>load_pool\<close>
  returns the version-2 file as a pool of version 2 with the file's profile, and the
  \<open>strategy\<close> command of openai_oauth_manage.py, which calls \<open>load_pool\<close> and nothing else,
  saves it again as version 2. The two callers that test the version, \<open>upsert_profile\<close> and
  \<open>_load_pool_or_single\<close>, raise on the same file. A version of 0 is read as 1
  (\<open>int(obj.get("version") or 1)\<close>) and passes both tests: \<open>upsert_profile\<close> adds the profile
  and saves, the provider's loader returns the pool.
\<close>

theorem load_pool_version_not_rejected:
  "map_sum id version (load_pool stub_env (\<lambda>s. Some (pool_file 2)) (Some ''pool.json'')) = Inr 2
   \<and> map_sum id (\<lambda>pool. map fst (profiles pool))
        (load_pool stub_env (\<lambda>s. Some (pool_file 2)) (Some ''pool.json'')) = Inr [''a'']
   \<and> map_sum id (\<lambda>r. (map_option version (fst r), map_option selection_strategy (fst r), snd r))
        (manage_strategy stub_env (\<lambda>s. Some (pool_file 2)) (Some ''pool.json'') ''round-robin'')
      = Inr (Some 2, Some ''round-robin'', 0)
   \<and> upsert_profile stub_env (\<lambda>s. Some (pool_file 2)) (Some ''pool.json'')
        (default_profile ''b'' ''tokenB'' ''refreshB'' 86400000) []
      = Inl UnsupportedPoolVersion
   \<and> load_pool_or_single stub_env (\<lambda>s. Some (pool_file 2)) stub_cfg (Some ''pool.json'') None
      = Inl InvalidPoolVersion
   \<and> map_sum id (\<lambda>r. (version (fst r), map fst (profiles (fst r)), snd r))
        (upsert_profile stub_env (\<lambda>s. Some (pool_file 0)) (Some ''pool.json'')
           (default_profile ''b'' ''tokenB'' ''refreshB'' 86400000) [])
      = Inr (1, [''a'', ''b''], ''b'')
   \<and> map_sum id (\<lambda>r. (version (fst r), map fst (profiles (fst r)), snd r))
        (load_pool_or_single stub_env (\<lambda>s. Some (pool_file 0)) stub_cfg (Some ''pool.json'') None)
      = Inr (1, [''a''], ''pool'')"
  by (simp add: stub_env_def pool_file_def load_pool_def pool_from_json_def
        profile_from_json_def jget_def py_or_def dict_merge_def dict_set_def upsert_profile_def
        manage_strategy_def load_pool_or_single_def stub_cfg_def py_strip_def py_lower_def py_lower_char_def py_isspace_def mark_used_def
        default_profile_def opt_or_def fields_get_def truthy_str_def)

section \<open>Properties of the dispatch loop\<close>

lemma parse_fail_step:
  assumes "llm e = Some c" and "parse_tool_json loads c = None"
  shows "dispatch_step loads secrets step e st =
           (if bad_outputs st + 1 \<ge> 5
            then Raise NotParseableTooManyTimes
                   (st\<lparr>events := events st @ [LlmRequest step, LlmResponse step (redact_text c secrets),
                                               LlmParseError (redact_text c secrets)],
                       bad_outputs := bad_outputs st + 1\<rparr>)
            else Continue
                   (st\<lparr>events := events st @ [LlmRequest step, LlmResponse step (redact_text c secrets),
                                               LlmParseError (redact_text c secrets)],
                       bad_outputs := bad_outputs st + 1,
                       messages := messages st @ [Assistant (redact_text c secrets),
                                                  UserJsonOnly (next_required st)]\<rparr>))"
  using assms
  by (simp add: dispatch_step_def strike_def log_event_def say_def next_required_def Let_def)

lemma parse_fail_run:
  assumes fail: "\<forall>step. \<exists>c. llm (env step) = Some c \<and> parse_tool_json loads c = None"
  shows "bad_outputs st + k = 5 \<Longrightarrow> 0 < k \<Longrightarrow> k \<le> n \<Longrightarrow>
         \<exists>st'. run_steps loads secrets env step n st = (st', Some NotParseableTooManyTimes)
           \<and> events st' = events st @ parse_error_events env secrets step k
                             @ [RunError NotParseableTooManyTimes]
           \<and> bad_outputs st' = 5 \<and> expected_i st' = expected_i st
           \<and> tool_calls_seen st' = tool_calls_seen st"
proof (induction k arbitrary: st step n)
  case 0
  then show ?case by simp
next
  case (Suc k)
  from Suc.prems obtain m where n: "n = Suc m" by (cases n) auto
  from fail obtain c where c: "llm (env step) = Some c" "parse_tool_json loads c = None" by blast
  note stp = parse_fail_step [OF c, of secrets step st]
  show ?case
  proof (cases "k = 0")
    case True
    then have ev: "parse_error_events env secrets step (Suc k)
        = [LlmRequest step, LlmResponse step (redact_text c secrets),
           LlmParseError (redact_text c secrets)]"
      using c by simp
    have b4: "bad_outputs st = 4" using Suc.prems True by simp
    then have "bad_outputs st + 1 \<ge> 5" by simp
    with stp b4 show ?thesis unfolding ev by (simp add: n log_event_def)
  next
    case False
    with Suc.prems have lt: "\<not> bad_outputs st + 1 \<ge> 5" by simp
    let ?st1 = "st\<lparr>events := events st @ [LlmRequest step, LlmResponse step (redact_text c secrets),
                                               LlmParseError (redact_text c secrets)],
                       bad_outputs := bad_outputs st + 1,
                       messages := messages st @ [Assistant (redact_text c secrets),
                                                  UserJsonOnly (next_required st)]\<rparr>"
    have "bad_outputs ?st1 + k = 5" "0 < k" "k \<le> m" using Suc.prems False n by simp_all
    from Suc.IH [OF this, of "Suc step"] obtain st' where
      st': "run_steps loads secrets env (Suc step) m ?st1 = (st', Some NotParseableTooManyTimes)"
        "events st' = events ?st1 @ parse_error_events env secrets (Suc step) k
                             @ [RunError NotParseableTooManyTimes]"
        "bad_outputs st' = 5" "expected_i st' = expected_i ?st1"
        "tool_calls_seen st' = tool_calls_seen ?st1" by blast
    have "run_steps loads secrets env step n st = (st', Some NotParseableTooManyTimes)"
      using stp lt st'(1) by (simp add: n)
    moreover have "events st' = events st @ parse_error_events env secrets step (Suc k)
                             @ [RunError NotParseableTooManyTimes]"
      using st'(2) c by simp
    ultimately show ?thesis using st'(3,4,5) by simp
  qed
qed

lemma filter_parse_error_events:
  "length (filter is_parse_error (parse_error_events env secrets s0 k)) = k"
  "length (filter is_llm_request (parse_error_events env secrets s0 k)) = k"
  by (induction k arbitrary: s0) simp_all

text \<open>
  Claim C6, as the code has it. When the model's output fails to parse at every step and
  \<open>max_steps\<close> is at least 5, the loop raises at the fifth attempt (\<open>bad_outputs >= 5\<close>):
  the run ends with the error and exit code 1; the events appended are those before the
  loop, then \<open>llm.request\<close>, \<open>llm.response\<close>, \<open>llm.parse_error\<close> for each of the steps 0
  to 4, then \<open>run.error\<close>, so exactly five \<open>llm.parse_error\<close> events and five requests,
  with \<open>run.error\<close> last; and the evidence file holds one line per event, in this order,
  when they fit the byte budget or the budget is not positive.
\<close>

theorem five_strike_parse_errors:
  assumes "\<forall>step. \<exists>c. llm (env step) = Some c \<and> parse_tool_json loads c = None"
    and "5 \<le> max_steps"
  shows "\<exists>st. run_dispatch loads secrets env max_steps autosync
                = (st, Some NotParseableTooManyTimes, 1)
           \<and> events st = events (initial_state autosync) @ parse_error_events env secrets 0 5
                           @ [RunError NotParseableTooManyTimes]
           \<and> length (filter is_parse_error (events st)) = 5
           \<and> length (filter is_llm_request (events st)) = 5
           \<and> last (events st) = RunError NotParseableTooManyTimes
           \<and> tool_calls_seen st = []
           \<and> (\<forall>ser b. b \<le> 0 \<or> lines_size (map ser (events st)) \<le> b \<longrightarrow>
                  append_all (new_writer b) [] (map ser (events st))
                    = (new_writer b, event_lines (map ser (events st))))"
proof -
  have "bad_outputs (initial_state autosync) + 5 = 5" "(0::nat) < 5" "5 \<le> nat max_steps"
    using assms(2) by (simp_all add: initial_state_def)
  from parse_fail_run [OF assms(1) this, of secrets 0] obtain st where
    st: "run_steps loads secrets env 0 (nat max_steps) (initial_state autosync)
           = (st, Some NotParseableTooManyTimes)"
      "events st = events (initial_state autosync) @ parse_error_events env secrets 0 5
                             @ [RunError NotParseableTooManyTimes]"
      "tool_calls_seen st = tool_calls_seen (initial_state autosync)" by blast
  have "run_dispatch loads secrets env max_steps autosync = (st, Some NotParseableTooManyTimes, 1)"
    using st(1) by (simp add: run_dispatch_def)
  moreover have "length (filter is_parse_error (events st)) = 5"
    "length (filter is_llm_request (events st)) = 5"
    unfolding st(2) by (simp_all add: filter_parse_error_events initial_state_def)
  moreover have "tool_calls_seen st = []" using st(3) by (simp add: initial_state_def)
  moreover have "append_all (new_writer b) [] (map ser (events st))
                    = (new_writer b, event_lines (map ser (events st)))"
    if "b \<le> 0 \<or> lines_size (map ser (events st)) \<le> b" for ser b
  proof (cases "b \<le> 0")
    case True
    then show ?thesis
      using append_all_unlimited [of "new_writer b" "[]" "map ser (events st)"]
      by (simp add: new_writer_def)
  next
    case False
    with that show ?thesis
      using append_all_fits [of "new_writer b" "[]" "map ser (events st)"]
      by (simp add: new_writer_def)
  qed
  ultimately show ?thesis using st(2) by simp
qed

lemma parse_not_json: "parse_tool_json loads_nothing ''not json'' = None"
  by (simp add: parse_tool_json_def loads_nothing_def Let_def split: option.splits)

theorem five_strike_parse_errors_witness:
  "(\<exists>st. run_dispatch loads_nothing [] env_not_json 12 False
            = (st, Some NotParseableTooManyTimes, 1)
         \<and> length (filter is_parse_error (events st)) = 5
         \<and> last (events st) = RunError NotParseableTooManyTimes)
   \<and> events (fst (run_dispatch loads_nothing [] env_not_json 12 False))
       = [RunStart, ProviderDoctor,
          LlmRequest 0, LlmResponse 0 ''not json'', LlmParseError ''not json'',
          LlmRequest 1, LlmResponse 1 ''not json'', LlmParseError ''not json'',
          LlmRequest 2, LlmResponse 2 ''not json'', LlmParseError ''not json'',
          LlmRequest 3, LlmResponse 3 ''not json'', LlmParseError ''not json'',
          LlmRequest 4, LlmResponse 4 ''not json'', LlmParseError ''not json'',
          RunError NotParseableTooManyTimes]"
proof -
  have 1: "\<forall>step. \<exists>c. llm (env_not_json step) = Some c \<and> parse_tool_json loads_nothing c = None"
    by (simp add: env_not_json_def parse_not_json)
  have 2: "(5::int) \<le> 12" by simp
  have a: "\<exists>st. run_dispatch loads_nothing [] env_not_json 12 False
            = (st, Some NotParseableTooManyTimes, 1)
         \<and> length (filter is_parse_error (events st)) = 5
         \<and> last (events st) = RunError NotParseableTooManyTimes"
    using five_strike_parse_errors [OF 1 2, of "[]" False] by blast
  have b: "events (fst (run_dispatch loads_nothing [] env_not_json 12 False))
       = [RunStart, ProviderDoctor,
          LlmRequest 0, LlmResponse 0 ''not json'', LlmParseError ''not json'',
          LlmRequest 1, LlmResponse 1 ''not json'', LlmParseError ''not json'',
          LlmRequest 2, LlmResponse 2 ''not json'', LlmParseError ''not json'',
          LlmRequest 3, LlmResponse 3 ''not json'', LlmParseError ''not json'',
          LlmRequest 4, LlmResponse 4 ''not json'', LlmParseError ''not json'',
          RunError NotParseableTooManyTimes]"
    by code_simp
  from a b show ?thesis by (rule conjI)
qed

text \<open>
  The claim as stated fails on the attempt that raises: with the model of scenario S6 and
  12 steps allowed, the run has raised after five requests; step 5, the sixth attempt, is
  never made.
\<close>

theorem five_strike_sixth_attempt_counterexample:
  "snd (run_dispatch loads_nothing [] env_not_json 12 False) = (Some NotParseableTooManyTimes, 1)
   \<and> length (filter is_llm_request
        (events (fst (run_dispatch loads_nothing [] env_not_json 12 False)))) = 5
   \<and> LlmRequest 5 \<notin> set (events (fst (run_dispatch loads_nothing [] env_not_json 12 False)))"
  by code_simp

text \<open>
  Claim C5 at a failing input. A model that proposes the wrong tool at each of 12 steps is
  rejected 12 times; \<open>bad_outputs\<close> stays 0, nothing is raised, no tool is called, and the
  run ends with exit code 0.
\<close>

theorem tool_mismatch_not_counted:
  "snd (run_dispatch loads_upload_call [] env_wrong_tool 12 False) = (None, 0)
   \<and> bad_outputs (fst (run_dispatch loads_upload_call [] env_wrong_tool 12 False)) = 0
   \<and> length (filter is_tool_rejected
        (events (fst (run_dispatch loads_upload_call [] env_wrong_tool 12 False)))) = 12
   \<and> tool_calls_seen (fst (run_dispatch loads_upload_call [] env_wrong_tool 12 False)) = []"
  by code_simp

section \<open>Properties of the redactor\<close>

subsection \<open>Occurrences and separating characters\<close>

lemma prefix_stops_at:
  assumes "c \<notin> set p" and "prefix p (a @ c # b)"
  shows "prefix p a"
proof -
  from assms(2) have "prefix p a \<or> (\<exists>us. p = a @ us \<and> prefix us (c # b))"
    by (simp add: prefix_append)
  then show ?thesis
  proof
    assume "\<exists>us. p = a @ us \<and> prefix us (c # b)"
    then obtain us where us: "p = a @ us" "prefix us (c # b)" by blast
    with assms(1) have "us = []" by (cases us) auto
    with us show ?thesis by simp
  qed
qed

lemma sublist_avoids:
  assumes "c \<notin> set s" and "sublist s (a @ c # b)"
  shows "sublist s a \<or> sublist s b"
  using assms(2)
proof (induction a)
  case Nil
  then have "prefix s (c # b) \<or> sublist s b" by (simp add: sublist_Cons_right)
  moreover have "s = []" if "prefix s (c # b)" using that assms(1) by (cases s) auto
  ultimately show ?case by auto
next
  case (Cons x a)
  then have "prefix s ((x # a) @ c # b) \<or> sublist s (a @ c # b)"
    by (simp add: sublist_Cons_right)
  then show ?case
  proof
    assume "prefix s ((x # a) @ c # b)"
    with assms(1) have "prefix s (x # a)" by (rule prefix_stops_at)
    then show ?thesis by auto
  next
    assume "sublist s (a @ c # b)"
    with Cons.IH have "sublist s a \<or> sublist s b" .
    then show ?thesis by (auto simp: sublist_Cons_right)
  qed
qed


lemma plain_not_in_marker:
  assumes "plain_secret s" and "sublist s (REDACTED @ r)"
  shows "sublist s r"
proof -
  have lt: "CHR ''<'' \<notin> set s" and gt: "CHR ''>'' \<notin> set s" and ne: "s \<noteq> []"
    and red: "\<not> sublist s ''redacted''"
    using assms(1) by (simp_all add: plain_secret_def)
  have "sublist s ([] @ CHR ''<'' # (''redacted'' @ CHR ''>'' # r))"
    using assms(2) by (simp add: REDACTED_def)
  with lt have "sublist s [] \<or> sublist s (''redacted'' @ CHR ''>'' # r)"
    by (rule sublist_avoids)
  with ne have "sublist s (''redacted'' @ CHR ''>'' # r)" by simp
  with gt have "sublist s ''redacted'' \<or> sublist s r" by (rule sublist_avoids)
  with red show ?thesis by simp
qed

lemma plain_not_in_bearer_block:
  assumes "plain_secret s" and "sublist s (BEARER_REDACTED @ r)"
  shows "sublist s ''Bearer'' \<or> sublist s r"
proof -
  have sp: "CHR '' '' \<notin> set s" using assms(1) by (simp add: plain_secret_def)
  have "sublist s (''Bearer'' @ CHR '' '' # (REDACTED @ r))"
    using assms(2) by (simp add: REDACTED_def BEARER_REDACTED_def)
  with sp have "sublist s ''Bearer'' \<or> sublist s (REDACTED @ r)" by (rule sublist_avoids)
  with assms(1) show ?thesis by (auto dest: plain_not_in_marker)
qed

subsection \<open>Replacing a secret\<close>

lemma py_replace_Nil: "old \<noteq> [] \<Longrightarrow> py_replace [] old new = []"
  by (simp add: py_replace.simps)

lemma py_replace_hit:
  "old \<noteq> [] \<Longrightarrow> prefix old (c # cs) \<Longrightarrow>
   py_replace (c # cs) old new = new @ py_replace (drop (length old) (c # cs)) old new"
  by (subst py_replace.simps) simp

lemma py_replace_miss:
  "old \<noteq> [] \<Longrightarrow> \<not> prefix old (c # cs) \<Longrightarrow>
   py_replace (c # cs) old new = c # py_replace cs old new"
  by (subst py_replace.simps) simp

text \<open>A prefix of the output without \<open><\<close> is a prefix of the input.\<close>

lemma py_replace_prefix:
  "old \<noteq> [] \<Longrightarrow> CHR ''<'' \<notin> set p \<Longrightarrow> prefix p (py_replace x old REDACTED) \<Longrightarrow> prefix p x"
proof (induction x arbitrary: p)
  case Nil
  then show ?case by (simp add: py_replace_Nil)
next
  case (Cons c cs)
  show ?case
  proof (cases "prefix old (c # cs)")
    case True
    with Cons.prems have "prefix p (CHR ''<'' # (''redacted>''
            @ py_replace (drop (length old) (c # cs)) old REDACTED))"
      by (simp add: py_replace_hit REDACTED_def)
    with Cons.prems(2) have "p = []" by (cases p) auto
    then show ?thesis by simp
  next
    case False
    with Cons.prems have out: "prefix p (c # py_replace cs old REDACTED)"
      by (simp add: py_replace_miss)
    show ?thesis
    proof (cases p)
      case Nil
      then show ?thesis by simp
    next
      case (Cons a p')
      with out Cons.prems(2) have "a = c" "prefix p' (py_replace cs old REDACTED)"
        "CHR ''<'' \<notin> set p'" by auto
      with Cons.IH [OF Cons.prems(1)] have "prefix p' cs" by blast
      with \<open>a = c\<close> Cons show ?thesis by simp
    qed
  qed
qed

text \<open>An occurrence of a plain secret in the output of a replacement was in its input.\<close>

lemma py_replace_keeps_absent:
  assumes "plain_secret s" and "old \<noteq> []"
  shows "sublist s (py_replace x old REDACTED) \<Longrightarrow> sublist s x"
proof (induction x rule: length_induct)
  case (1 x)
  have lt: "CHR ''<'' \<notin> set s" using assms(1) by (simp add: plain_secret_def)
  show ?case
  proof (cases x)
    case Nil
    with "1.prems" assms(2) show ?thesis by (simp add: py_replace_Nil)
  next
    case (Cons c cs)
    show ?thesis
    proof (cases "prefix old (c # cs)")
      case True
      let ?rest = "drop (length old) x"
      from True Cons assms(2) "1.prems"
      have "sublist s (REDACTED @ py_replace ?rest old REDACTED)"
        by (simp add: py_replace_hit)
      with assms(1) have "sublist s (py_replace ?rest old REDACTED)"
        by (rule plain_not_in_marker)
      moreover have "length ?rest < length x" using assms(2) Cons by (cases old) auto
      ultimately have "sublist s ?rest" using "1.IH" by blast
      then show ?thesis by (meson sublist_drop sublist_order.order_trans)
    next
      case False
      with Cons assms(2) "1.prems" have "sublist s (c # py_replace cs old REDACTED)"
        by (simp add: py_replace_miss)
      then have "prefix s (c # py_replace cs old REDACTED) \<or> sublist s (py_replace cs old REDACTED)"
        by (simp add: sublist_Cons_right)
      then show ?thesis
      proof
        assume pre: "prefix s (c # py_replace cs old REDACTED)"
        have "prefix s (py_replace x old REDACTED)"
          using pre False Cons assms(2) by (simp add: py_replace_miss)
        with assms(2) lt have "prefix s x" by (rule py_replace_prefix)
        then show ?thesis by auto
      next
        assume "sublist s (py_replace cs old REDACTED)"
        moreover have "length cs < length x" using Cons by simp
        ultimately have "sublist s cs" using "1.IH" by blast
        with Cons show ?thesis by (auto simp: sublist_Cons_right)
      qed
    qed
  qed
qed

text \<open>After its own replacement a plain secret does not occur.\<close>

lemma py_replace_removes:
  assumes "plain_secret s"
  shows "\<not> sublist s (py_replace x s REDACTED)"
proof (induction x rule: length_induct)
  case (1 x)
  have ne: "s \<noteq> []" and lt: "CHR ''<'' \<notin> set s"
    using assms by (simp_all add: plain_secret_def)
  show ?case
  proof (cases x)
    case Nil
    with ne show ?thesis by (simp add: py_replace_Nil)
  next
    case (Cons c cs)
    show ?thesis
    proof (cases "prefix s (c # cs)")
      case True
      let ?rest = "drop (length s) x"
      have "length ?rest < length x" using ne Cons by (cases s) auto
      with "1.IH" have no: "\<not> sublist s (py_replace ?rest s REDACTED)" by blast
      have "py_replace x s REDACTED = REDACTED @ py_replace ?rest s REDACTED"
        using True Cons ne by (simp add: py_replace_hit)
      with no assms show ?thesis by (auto dest: plain_not_in_marker)
    next
      case False
      have out: "py_replace x s REDACTED = c # py_replace cs s REDACTED"
        using False Cons ne by (simp add: py_replace_miss)
      have "length cs < length x" using Cons by simp
      with "1.IH" have no: "\<not> sublist s (py_replace cs s REDACTED)" by blast
      have "\<not> prefix s (py_replace x s REDACTED)"
      proof
        assume "prefix s (py_replace x s REDACTED)"
        with ne lt have "prefix s x" by (rule py_replace_prefix)
        with False Cons show False by simp
      qed
      with no out show ?thesis by (simp add: sublist_Cons_right)
    qed
  qed
qed

text \<open>The loop over the secrets.\<close>

lemma replace_secrets_keep_absent:
  "plain_secret s \<Longrightarrow> \<not> sublist s t \<Longrightarrow> \<not> sublist s (foldl replace_secret t secrets)"
proof (induction secrets arbitrary: t)
  case Nil
  then show ?case by simp
next
  case (Cons x xs)
  have "\<not> sublist s (replace_secret t x)"
    using Cons.prems py_replace_keeps_absent [of s x t] by (auto simp: replace_secret_def)
  with Cons.IH Cons.prems(1) show ?case by simp
qed

lemma replace_secrets_remove:
  "s \<in> set secrets \<Longrightarrow> plain_secret s \<Longrightarrow> \<not> sublist s (foldl replace_secret t secrets)"
proof (induction secrets arbitrary: t)
  case Nil
  then show ?case by simp
next
  case (Cons x xs)
  show ?case
  proof (cases "s = x")
    case True
    have "s \<noteq> []" using Cons.prems(2) by (simp add: plain_secret_def)
    then have "\<not> sublist s (replace_secret t x)"
      using True py_replace_removes [OF Cons.prems(2), of t] by (simp add: replace_secret_def)
    with Cons.prems(2) have "\<not> sublist s (foldl replace_secret (replace_secret t x) xs)"
      by (rule replace_secrets_keep_absent)
    then show ?thesis by simp
  next
    case False
    with Cons.prems have "s \<in> set xs" by simp
    with Cons.IH Cons.prems(2) show ?thesis by simp
  qed
qed


subsection \<open>The Bearer substitution\<close>

lemma bearer_match_Nil: "bearer_match [] = None"
  by (simp add: bearer_match_def)

lemma bearer_match_needs_B: "c \<noteq> CHR ''B'' \<Longrightarrow> bearer_match (c # cs) = None"
  by (simp add: bearer_match_def)

lemma bearer_match_iff:
  "bearer_match t \<noteq> None \<longleftrightarrow>
     prefix ''Bearer'' t \<and> takeWhile py_isspace (drop 6 t) \<noteq> []
     \<and> takeWhile is_token_char (dropWhile py_isspace (drop 6 t)) \<noteq> []"
  by (simp add: bearer_match_def Let_def)

lemma bearer_match_prefix: "bearer_match t = Some n \<Longrightarrow> prefix ''Bearer'' t"
  by (simp add: bearer_match_def split: if_splits)

lemma re_sub_Nil: "re_sub_bearer [] = []"
  by (simp add: re_sub_bearer.simps)

lemma re_sub_hit:
  "bearer_match t = Some n \<Longrightarrow> re_sub_bearer t = BEARER_REDACTED @ re_sub_bearer (drop n t)"
  by (subst re_sub_bearer.simps) (auto simp: bearer_match_Nil)

lemma re_sub_miss:
  "bearer_match (c # cs) = None \<Longrightarrow> re_sub_bearer (c # cs) = c # re_sub_bearer cs"
  by (subst re_sub_bearer.simps) simp

lemma re_sub_hd: "y \<noteq> [] \<Longrightarrow> re_sub_bearer y \<noteq> [] \<and> hd (re_sub_bearer y) = hd y"
proof (cases "bearer_match y")
  case None
  assume "y \<noteq> []"
  then obtain c cs where "y = c # cs" by (cases y) auto
  with None show ?thesis by (simp add: re_sub_miss)
next
  case (Some n)
  then have "prefix ''Bearer'' y" by (rule bearer_match_prefix)
  then have "hd y = CHR ''B''" by (auto simp: prefix_def)
  with Some show ?thesis by (simp add: re_sub_hit BEARER_REDACTED_def)
qed

lemma re_sub_eq_Nil: "re_sub_bearer y = [] \<longleftrightarrow> y = []"
  using re_sub_hd [of y] by (auto simp: re_sub_Nil)

lemma re_sub_takeWhile:
  assumes "\<not> P (CHR ''B'')"
  shows "takeWhile P (re_sub_bearer y) = takeWhile P y
       \<and> dropWhile P (re_sub_bearer y) = re_sub_bearer (dropWhile P y)"
proof (induction y)
  case Nil
  then show ?case by (simp add: re_sub_Nil)
next
  case (Cons c cs)
  show ?case
  proof (cases "P c")
    case True
    with assms have "c \<noteq> CHR ''B''" by auto
    then have "re_sub_bearer (c # cs) = c # re_sub_bearer cs"
      by (simp add: re_sub_miss bearer_match_needs_B)
    with True Cons.IH show ?thesis by simp
  next
    case False
    have "re_sub_bearer (c # cs) \<noteq> []" "hd (re_sub_bearer (c # cs)) = c"
      using re_sub_hd [of "c # cs"] by simp_all
    then obtain r where "re_sub_bearer (c # cs) = c # r"
      by (cases "re_sub_bearer (c # cs)") auto
    with False show ?thesis by simp
  qed
qed

lemma re_sub_agree:
  "prefix q (re_sub_bearer y) \<Longrightarrow> CHR ''B'' \<notin> set q \<Longrightarrow>
   prefix q y \<and> drop (length q) (re_sub_bearer y) = re_sub_bearer (drop (length q) y)"
proof (induction q arbitrary: y)
  case Nil
  then show ?case by simp
next
  case (Cons a q)
  from Cons.prems(1) have ne: "re_sub_bearer y \<noteq> []" and hd: "hd (re_sub_bearer y) = a"
    by (auto simp: prefix_def)
  from ne have "y \<noteq> []" by (simp add: re_sub_eq_Nil)
  with hd have "hd y = a" using re_sub_hd [of y] by simp
  with \<open>y \<noteq> []\<close> obtain cs where y: "y = a # cs" by (cases y) auto
  from Cons.prems(2) have "a \<noteq> CHR ''B''" by auto
  then have out: "re_sub_bearer (a # cs) = a # re_sub_bearer cs"
    by (simp add: re_sub_miss bearer_match_needs_B)
  with Cons.prems have "prefix q (re_sub_bearer cs)" "CHR ''B'' \<notin> set q"
    by (simp_all add: y)
  from Cons.IH [OF this] show ?case by (simp add: y out)
qed

lemma not_space_B: "\<not> py_isspace (CHR ''B'')"
  by (simp add: py_isspace_def)

text \<open>Where the output matches at its head, the input matched at its head.\<close>

lemma re_sub_match_head:
  assumes "bearer_match (c # re_sub_bearer cs) \<noteq> None"
  shows "bearer_match (c # cs) \<noteq> None"
proof -
  let ?R = "re_sub_bearer cs"
  have all: "prefix ''Bearer'' (c # ?R)
      \<and> takeWhile py_isspace (drop 6 (c # ?R)) \<noteq> []
      \<and> takeWhile is_token_char (dropWhile py_isspace (drop 6 (c # ?R))) \<noteq> []"
    using assms unfolding bearer_match_iff .
  from all have pre: "prefix ''Bearer'' (c # ?R)" by (rule conjunct1)
  from all have ws: "takeWhile py_isspace (drop 6 (c # ?R)) \<noteq> []" by blast
  from all have tok: "takeWhile is_token_char (dropWhile py_isspace (drop 6 (c # ?R))) \<noteq> []"
    by blast
  from pre have c: "c = CHR ''B''" and q: "prefix ''earer'' ?R" by simp_all
  have "CHR ''B'' \<notin> set ''earer''" by simp
  with q have in_pre: "prefix ''earer'' cs" and dr: "drop 5 ?R = re_sub_bearer (drop 5 cs)"
    using re_sub_agree [of "''earer''" cs] by (simp_all add: eval_nat_numeral)
  have d6: "drop 6 (c # ?R) = re_sub_bearer (drop 5 cs)" using dr by simp
  let ?z = "drop 5 cs"
  have tw: "takeWhile py_isspace (re_sub_bearer ?z) = takeWhile py_isspace ?z"
    and dw: "dropWhile py_isspace (re_sub_bearer ?z) = re_sub_bearer (dropWhile py_isspace ?z)"
    using re_sub_takeWhile [where P = py_isspace and y = ?z] not_space_B by simp_all
  let ?w = "dropWhile py_isspace ?z"
  have tok': "takeWhile is_token_char (re_sub_bearer ?w) \<noteq> []"
    using tok unfolding d6 dw .
  then have "re_sub_bearer ?w \<noteq> []" by auto
  then have wne: "?w \<noteq> []" by (simp add: re_sub_eq_Nil)
  from tok' have "is_token_char (hd (re_sub_bearer ?w))"
    by (cases "re_sub_bearer ?w") (auto split: if_splits)
  with wne have "is_token_char (hd ?w)" using re_sub_hd [of ?w] by simp
  with wne have tok_in: "takeWhile is_token_char ?w \<noteq> []" by (cases ?w) auto
  have ws_in: "takeWhile py_isspace ?z \<noteq> []" using ws unfolding d6 tw .
  have "prefix ''Bearer'' (c # cs)" using c in_pre by simp
  moreover have "drop 6 (c # cs) = ?z" by simp
  ultimately have "prefix ''Bearer'' (c # cs)
      \<and> takeWhile py_isspace (drop 6 (c # cs)) \<noteq> []
      \<and> takeWhile is_token_char (dropWhile py_isspace (drop 6 (c # cs))) \<noteq> []"
    using ws_in tok_in by simp
  then show ?thesis unfolding bearer_match_iff .
qed


lemma bearer_block_no_match:
  assumes "i < 17"
  shows "bearer_match (drop i BEARER_REDACTED @ r) = None"
proof (cases i)
  case 0
  then show ?thesis
    by (simp add: BEARER_REDACTED_def bearer_match_def py_isspace_def is_token_char_def
          less_eq_char_def)
next
  case (Suc j)
  have dr: "drop i BEARER_REDACTED = drop j (tl BEARER_REDACTED)" by (simp add: Suc drop_Suc)
  have "j < length (tl BEARER_REDACTED)" using assms Suc by (simp add: BEARER_REDACTED_def)
  then obtain c cs where ccs: "drop j (tl BEARER_REDACTED) = c # cs"
    by (cases "drop j (tl BEARER_REDACTED)") auto
  then have "c \<in> set (tl BEARER_REDACTED)" by (metis in_set_dropD list.set_intros(1))
  then have "c \<noteq> CHR ''B''" by (auto simp: BEARER_REDACTED_def)
  then show ?thesis by (simp add: dr ccs bearer_match_needs_B)
qed

text \<open>No match of the pattern starts anywhere in the output of the substitution.\<close>

lemma re_sub_no_match: "bearer_match (drop i (re_sub_bearer x)) = None"
proof (induction x arbitrary: i rule: length_induct)
  case (1 x)
  show ?case
  proof (cases x)
    case Nil
    then show ?thesis by (simp add: re_sub_Nil bearer_match_Nil)
  next
    case (Cons c cs)
    show ?thesis
    proof (cases "bearer_match x")
      case None
      then have out: "re_sub_bearer x = c # re_sub_bearer cs" by (simp add: Cons re_sub_miss)
      show ?thesis
      proof (cases i)
        case 0
        have "bearer_match (c # re_sub_bearer cs) = None"
        proof (rule ccontr)
          assume "bearer_match (c # re_sub_bearer cs) \<noteq> None"
          then have "bearer_match (c # cs) \<noteq> None" by (rule re_sub_match_head)
          with None Cons show False by simp
        qed
        with 0 out show ?thesis by simp
      next
        case (Suc j)
        have "length cs < length x" using Cons by simp
        with "1.IH" have "bearer_match (drop j (re_sub_bearer cs)) = None" by blast
        with Suc out show ?thesis by simp
      qed
    next
      case (Some n)
      then have out: "re_sub_bearer x = BEARER_REDACTED @ re_sub_bearer (drop n x)"
        by (rule re_sub_hit)
      from Some have "0 < n" by (auto simp: bearer_match_def Let_def split: if_splits)
      then have shorter: "length (drop n x) < length x" using Cons by simp
      have len: "length BEARER_REDACTED = 17" by (simp add: BEARER_REDACTED_def)
      show ?thesis
      proof (cases "i < 17")
        case True
        then have "drop i (re_sub_bearer x) = drop i BEARER_REDACTED @ re_sub_bearer (drop n x)"
          by (simp add: out len)
        with True show ?thesis by (simp only: bearer_block_no_match)
      next
        case False
        then have "drop i (re_sub_bearer x) = drop (i - 17) (re_sub_bearer (drop n x))"
          by (simp add: out len)
        with shorter "1.IH" show ?thesis by simp
      qed
    qed
  qed
qed

text \<open>A prefix of the output without a space is a prefix of the input.\<close>

lemma re_sub_prefix:
  "CHR '' '' \<notin> set p \<Longrightarrow> prefix p (re_sub_bearer y) \<Longrightarrow> prefix p y"
proof (induction y arbitrary: p)
  case Nil
  then show ?case by (simp add: re_sub_Nil)
next
  case (Cons c cs)
  show ?case
  proof (cases "bearer_match (c # cs)")
    case (Some n)
    then have "re_sub_bearer (c # cs)
               = ''Bearer'' @ CHR '' '' # (''<redacted>'' @ re_sub_bearer (drop n (c # cs)))"
      by (simp add: re_sub_hit BEARER_REDACTED_def)
    with Cons.prems have "prefix p ''Bearer''" by (metis prefix_stops_at)
    moreover from Some have "prefix ''Bearer'' (c # cs)" by (rule bearer_match_prefix)
    ultimately show ?thesis by (rule prefix_order.trans)
  next
    case None
    then have out: "re_sub_bearer (c # cs) = c # re_sub_bearer cs" by (rule re_sub_miss)
    show ?thesis
    proof (cases p)
      case Nil
      then show ?thesis by simp
    next
      case (Cons a p')
      with out Cons.prems have "a = c" "prefix p' (re_sub_bearer cs)" "CHR '' '' \<notin> set p'"
        by auto
      with Cons.IH have "prefix p' cs" by blast
      with \<open>a = c\<close> Cons show ?thesis by simp
    qed
  qed
qed

text \<open>An occurrence of a plain secret in the output of the substitution was in its input.\<close>

lemma re_sub_keeps_absent:
  assumes "plain_secret s"
  shows "sublist s (re_sub_bearer x) \<Longrightarrow> sublist s x"
proof (induction x rule: length_induct)
  case (1 x)
  have sp: "CHR '' '' \<notin> set s" using assms by (simp add: plain_secret_def)
  show ?case
  proof (cases x)
    case Nil
    with "1.prems" show ?thesis by (simp add: re_sub_Nil)
  next
    case (Cons c cs)
    show ?thesis
    proof (cases "bearer_match x")
      case (Some n)
      then have out: "re_sub_bearer x = BEARER_REDACTED @ re_sub_bearer (drop n x)"
        by (rule re_sub_hit)
      from Some have "0 < n" by (auto simp: bearer_match_def Let_def split: if_splits)
      then have shorter: "length (drop n x) < length x" using Cons by simp
      from "1.prems" out assms
      have "sublist s ''Bearer'' \<or> sublist s (re_sub_bearer (drop n x))"
        by (simp add: plain_not_in_bearer_block)
      then show ?thesis
      proof
        assume "sublist s ''Bearer''"
        moreover from Some have "prefix ''Bearer'' x" by (rule bearer_match_prefix)
        ultimately show ?thesis
          by (meson prefix_imp_sublist sublist_order.order_trans)
      next
        assume "sublist s (re_sub_bearer (drop n x))"
        with shorter "1.IH" have "sublist s (drop n x)" by blast
        then show ?thesis by (meson sublist_drop sublist_order.order_trans)
      qed
    next
      case None
      then have out: "re_sub_bearer x = c # re_sub_bearer cs" by (simp add: Cons re_sub_miss)
      with "1.prems" have "prefix s (re_sub_bearer x) \<or> sublist s (re_sub_bearer cs)"
        by (simp add: sublist_Cons_right)
      then show ?thesis
      proof
        assume "prefix s (re_sub_bearer x)"
        with sp have "prefix s x" by (rule re_sub_prefix)
        then show ?thesis by auto
      next
        assume "sublist s (re_sub_bearer cs)"
        moreover have "length cs < length x" using Cons by simp
        ultimately have "sublist s cs" using "1.IH" by blast
        with Cons show ?thesis by (auto simp: sublist_Cons_right)
      qed
    qed
  qed
qed

subsection \<open>Texts and values\<close>

lemma redact_text_no_bearer: "\<not> has_bearer_match (redact_text t secrets)"
  by (simp add: has_bearer_match_def redact_text_def re_sub_no_match)

lemma redact_text_no_secret:
  assumes "s \<in> set secrets" and "plain_secret s"
  shows "\<not> sublist s (redact_text t secrets)"
proof
  assume "sublist s (redact_text t secrets)"
  then have "sublist s (foldl replace_secret t secrets)"
    using re_sub_keeps_absent [OF assms(2)] by (simp add: redact_text_def)
  with replace_secrets_remove [OF assms] show False by blast
qed

lemma marker_clean:
  "\<not> has_bearer_match REDACTED" "plain_secret s \<Longrightarrow> \<not> sublist s REDACTED"
proof -
  have "bearer_match (drop i REDACTED) = None" for i
  proof (cases "drop i REDACTED")
    case Nil
    then show ?thesis by (simp add: bearer_match_Nil)
  next
    case (Cons c cs)
    then have "c \<in> set REDACTED" by (metis in_set_dropD list.set_intros(1))
    then have "c \<noteq> CHR ''B''" by (auto simp: REDACTED_def)
    with Cons show ?thesis by (simp add: bearer_match_needs_B)
  qed
  then show "\<not> has_bearer_match REDACTED" by (simp add: has_bearer_match_def)
  show "\<not> sublist s REDACTED" if "plain_secret s"
    using plain_not_in_marker [OF that, of "[]"] that by (auto simp: plain_secret_def)
qed

lemma redact_obj_values_clean:
  "t \<in> set (json_values (redact_obj v secrets)) \<Longrightarrow>
   \<not> has_bearer_match t \<and> (\<forall>s\<in>set secrets. plain_secret s \<longrightarrow> \<not> sublist s t)"
proof (induction v secrets arbitrary: t rule: redact_obj.induct)
  case (1 s secrets)
  then show ?case by (auto simp: redact_text_no_bearer redact_text_no_secret)
next
  case (2 xs secrets)
  from "2.prems" obtain x where "x \<in> set xs" "t \<in> set (json_values (redact_obj x secrets))"
    by auto
  with "2.IH" show ?case by blast
next
  case (3 kvs secrets)
  from "3.prems" obtain kv where kv: "kv \<in> set kvs"
    and t: "t \<in> set (json_values (if sensitive_key (fst kv) then JStr REDACTED
                                    else redact_obj (snd kv) secrets))"
    by (auto split: if_splits)
  show ?case
  proof (cases "sensitive_key (fst kv)")
    case True
    with t have "t = REDACTED" by simp
    then show ?thesis using marker_clean by blast
  next
    case False
    with t have "t \<in> set (json_values (redact_obj (snd kv) secrets))" by simp
    with "3.IH" [OF kv False] show ?thesis by blast
  qed
qed simp_all

lemma redact_obj_shape: "redacted_as v (redact_obj v secrets)"
proof (induction v secrets rule: redact_obj.induct)
  case (2 xs secrets)
  then show ?case by (simp add: list_all2_map2 list.rel_refl_strong)
next
  case (3 kvs secrets)
  then show ?case by (simp add: list_all2_map2 list.rel_refl_strong)
qed simp_all

text \<open>
  Claim C8, as the code has it. In the redacted result every string value, at any depth,
  holds no match of the pattern \<open>Bearer\s+[A-Za-z0-9._-]+\<close> and no known secret that is
  plain (not empty, free of \<open><\<close>, \<open>>\<close> and the space, not a part of the word \<open>redacted\<close>).
  The result has the shape of the input at every depth (\<open>redacted_as\<close>): a dict keeps its
  keys as they are and in their order, an entry whose key lowercases to \<open>authorization\<close>,
  \<open>api_key\<close> or \<open>apikey\<close> has the string \<open><redacted>\<close> as its value, whatever the value
  was, a list keeps its length, and \<open>None\<close>, booleans and numbers are returned unchanged.
  The last conjunct spells the key rule out for the root.
\<close>

theorem redact_obj_redacts_values:
  "(\<forall>t\<in>set (json_values (redact_obj v secrets)).
       \<not> has_bearer_match t \<and> (\<forall>s\<in>set secrets. plain_secret s \<longrightarrow> \<not> sublist s t))
   \<and> redacted_as v (redact_obj v secrets)
   \<and> (\<forall>kvs. v = JObj kvs \<longrightarrow>
         (\<exists>kvs'. redact_obj v secrets = JObj kvs' \<and> map fst kvs' = map fst kvs
            \<and> (\<forall>kv\<in>set kvs'. sensitive_key (fst kv) \<longrightarrow> snd kv = JStr REDACTED)))"
proof -
  have "\<exists>kvs'. redact_obj (JObj kvs) secrets = JObj kvs' \<and> map fst kvs' = map fst kvs
            \<and> (\<forall>kv\<in>set kvs'. sensitive_key (fst kv) \<longrightarrow> snd kv = JStr REDACTED)" for kvs
    by (auto simp: comp_def)
  with redact_obj_values_clean redact_obj_shape show ?thesis by blast
qed

theorem redact_obj_redacts_values_witness:
  "plain_secret ''tokenA''
   \<and> redact_obj
       (JObj [(''Authorization'', JArr [JStr ''Bearer tokenA'']),
              (''request'', JObj [(''Api_Key'', JInt 12345), (''retries'', JInt 3),
                                  (''notes'', JArr [JStr ''see tokenA, Bearer  abc.def'', JNull])])])
       [''tokenA'']
       = JObj [(''Authorization'', JStr ''<redacted>''),
               (''request'', JObj [(''Api_Key'', JStr ''<redacted>''), (''retries'', JInt 3),
                                   (''notes'', JArr [JStr ''see <redacted>, Bearer <redacted>'', JNull])])]
   \<and> redacted_as
       (JObj [(''Authorization'', JArr [JStr ''Bearer tokenA'']),
              (''request'', JObj [(''Api_Key'', JInt 12345), (''retries'', JInt 3),
                                  (''notes'', JArr [JStr ''see tokenA, Bearer  abc.def'', JNull])])])
       (JObj [(''Authorization'', JStr ''<redacted>''),
              (''request'', JObj [(''Api_Key'', JStr ''<redacted>''), (''retries'', JInt 3),
                                  (''notes'', JArr [JStr ''see <redacted>, Bearer <redacted>'', JNull])])])
   \<and> \<not> redacted_as (JObj [(''request'', JObj [(''Authorization'', JInt 12345)])])
                     (JObj [(''request'', JObj [(''Authorization'', JInt 12345)])])
   \<and> \<not> has_bearer_match ''see <redacted>, Bearer <redacted>''
   \<and> \<not> sublist ''tokenA'' ''see <redacted>, Bearer <redacted>''"
proof -
  let ?v = "JObj [(''Authorization'', JArr [JStr ''Bearer tokenA'']),
              (''request'', JObj [(''Api_Key'', JInt 12345), (''retries'', JInt 3),
                                  (''notes'', JArr [JStr ''see tokenA, Bearer  abc.def'', JNull])])]"
  let ?w = "JObj [(''Authorization'', JStr ''<redacted>''),
               (''request'', JObj [(''Api_Key'', JStr ''<redacted>''), (''retries'', JInt 3),
                                   (''notes'', JArr [JStr ''see <redacted>, Bearer <redacted>'', JNull])])]"
  have ps: "plain_secret ''tokenA''" by code_simp
  have ev: "redact_obj ?v [''tokenA''] = ?w" by code_simp
  have nr: "\<not> redacted_as (JObj [(''request'', JObj [(''Authorization'', JInt 12345)])])
                     (JObj [(''request'', JObj [(''Authorization'', JInt 12345)])])"
    by code_simp
  note inst = redact_obj_redacts_values [of ?v "[''tokenA'']"]
  from inst have "\<forall>t\<in>set (json_values (redact_obj ?v [''tokenA''])).
       \<not> has_bearer_match t \<and> (\<forall>s\<in>set [''tokenA'']. plain_secret s \<longrightarrow> \<not> sublist s t)"
    by (rule conjunct1)
  then have clean: "\<not> has_bearer_match ''see <redacted>, Bearer <redacted>''
      \<and> \<not> sublist ''tokenA'' ''see <redacted>, Bearer <redacted>''"
    unfolding ev using ps by simp
  from inst have "redacted_as ?v (redact_obj ?v [''tokenA''])" by blast
  then have shape: "redacted_as ?v ?w" unfolding ev .
  from ps ev shape nr clean show ?thesis by blast
qed

text \<open>
  The claim as stated fails on dict keys, which \<open>redact_obj\<close> copies: a known secret that
  is a key is still spelled out in the result. It also fails on a secret that is part of
  the replacement text: \<open>red\<close> occurs in \<open><redacted>\<close>.
\<close>

theorem redact_obj_key_counterexample:
  "redact_obj (JObj [(''tokenA'', JStr ''ok'')]) [''tokenA''] = JObj [(''tokenA'', JStr ''ok'')]
   \<and> ''tokenA'' \<in> set (json_strings (redact_obj (JObj [(''tokenA'', JStr ''ok'')]) [''tokenA'']))
   \<and> redact_text ''red'' [''red''] = ''<redacted>''
   \<and> sublist ''red'' (redact_text ''red'' [''red''])"
  by code_simp

end
